theory Spec2Isabelle
  imports Complex_Main "HOL-Library.Word" "HOL-Library.AList"
begin

section \<open>Conventions of the embedding\<close>

text \<open>
  The sources are JavaScript. A JavaScript number that holds a measurement (a coordinate,
  a normalised time, a density weight, a confidence) is modelled as a \<^typ>\<open>real\<close>: the
  rounding of IEEE doubles and of \<^verbatim>\<open>Float32Array\<close> stores is not modelled. A number
  that only ever holds an integer (a loop index, a cell index, a counter incremented by
  one) is a \<^typ>\<open>nat\<close> or an \<^typ>\<open>int\<close>. An entry of a \<^verbatim>\<open>Uint32Array\<close> is a
  \<^typ>\<open>32 word\<close>: \<^verbatim>\<open>++\<close> and \<^verbatim>\<open>+=\<close> on it wrap around.
\<close>

section \<open>The point set\<close>

text \<open>
  The normalised point set every builder consumes (the object \<^verbatim>\<open>DataProcessor.process\<close>
  returns): parallel arrays and their common length. The field \<^verbatim>\<open>times\<close> is named
  \<open>times_arr\<close> here. The data-model invariant is \<open>valid_data\<close>: the arrays have the
  lengths \<open>count\<close> prescribes, species ids are integers from 0 to 7, times and density
  weights lie in [0,1].
\<close>

record processedData =
  positions :: "real list"
  times_arr :: "real list"
  species :: "real list"
  densities :: "real list"
  count :: nat

definition valid_species :: "real \<Rightarrow> bool" where
  "valid_species s = (0 \<le> s \<and> s \<le> 7 \<and> real_of_int \<lfloor>s\<rfloor> = s)"

definition valid_unit :: "real \<Rightarrow> bool" where
  "valid_unit t = (0 \<le> t \<and> t \<le> 1)"

definition valid_data :: "processedData \<Rightarrow> bool" where
  "valid_data d =
     (length (positions d) = 3 * count d \<and> length (times_arr d) = count d
      \<and> length (species d) = count d \<and> length (densities d) = count d
      \<and> list_all valid_species (species d) \<and> list_all valid_unit (times_arr d)
      \<and> list_all valid_unit (densities d))"

section \<open>rendering/WhaleInstanceRenderer.js: confidence from density and LOD level\<close>

text \<open>
  The body of the loop of \<^verbatim>\<open>_computeConfidenceFromData\<close>, for one instance:
  \<^verbatim>\<open>
    const lodConfidenceMultiplier = 1.0 - (lodLevel * 0.25);
    const densityConfidence = 0.2 + 0.7 * (1.0 - Math.exp(-density * 3));
    const finalConfidence = densityConfidence * lodConfidenceMultiplier;
    this.confidences[i] = Math.max(0.1, Math.min(0.95, finalConfidence));
  \<close>
\<close>

definition lodConfidenceMultiplier :: "nat \<Rightarrow> real" where
  "lodConfidenceMultiplier lodLevel = 1 - real lodLevel * (25 / 100)"

definition densityConfidence :: "real \<Rightarrow> real" where
  "densityConfidence density = 2 / 10 + (7 / 10) * (1 - exp (- density * 3))"

definition finalConfidence :: "real \<Rightarrow> nat \<Rightarrow> real" where
  "finalConfidence density lodLevel = densityConfidence density * lodConfidenceMultiplier lodLevel"

definition confidence :: "real \<Rightarrow> nat \<Rightarrow> real" where
  "confidence density lodLevel = max (1 / 10) (min (95 / 100) (finalConfidence density lodLevel))"

text \<open>
  The loop itself: it writes the confidence of instance \<open>i\<close> into slot \<open>i\<close> of the
  pre-allocated buffer, for \<open>i < n\<close> (\<open>dens\<close> is \<^verbatim>\<open>this.densities\<close>, \<open>n\<close> is \<^verbatim>\<open>count\<close>). A store past the end of a typed array is
  ignored, which is what \<open>list_update\<close> does.
\<close>

definition computeConfidenceFromData :: "real list \<Rightarrow> real list \<Rightarrow> nat \<Rightarrow> nat \<Rightarrow> real list" where
  "computeConfidenceFromData dens confidences n lodLevel =
     fold (\<lambda>i cs. cs[i := confidence (dens ! i) lodLevel]) [0..<n] confidences"

section \<open>data/TimeChunker.js: the temporal index\<close>

text \<open>
  \<^verbatim>\<open>new Array(n)\<close> throws a RangeError unless \<open>n\<close> is an integer below \<open>2^32\<close>, and reading
  a property of \<^verbatim>\<open>null\<close> throws a TypeError: both are values of \<open>js_error\<close>, and a
  method that can throw returns a sum. \<^verbatim>\<open>new Array(chunkCount)\<close> is a list of
  \<open>chunkCount\<close> holes (\<open>None\<close>); the writes \<^verbatim>\<open>this.chunks[currentChunk] = ...\<close> always
  fall inside it. A pair \<^verbatim>\<open>{index, time}\<close> is a pair \<open>(index, time)\<close>, and a returned range
  \<^verbatim>\<open>{startIndex, endIndex}\<close> a pair too. \<^verbatim>\<open>indexed.sort((a, b) => a.time - b.time)\<close> is the
  library's stable sort by the time component (ECMAScript requires
  \<^verbatim>\<open>Array.prototype.sort\<close> to be stable), which \<open>sort_key\<close> is.
\<close>

datatype js_error = RangeError | TypeError

record chunk =
  startIndex :: nat
  endIndex :: nat
  timeStart :: real
  timeEnd :: real

record timeChunker =
  chunkCount :: nat
  chunks :: "chunk option list"
  sortedIndices :: "32 word list option"
  data :: "processedData option"

text \<open>
  The constructor, and the first steps of \<^verbatim>\<open>build\<close>: the pairs of a record index and its
  time, and their sort.
\<close>

definition TimeChunker_new :: "nat \<Rightarrow> timeChunker" where
  "TimeChunker_new n = \<lparr>chunkCount = n, chunks = [], sortedIndices = None, data = None\<rparr>"

definition indexed_pairs :: "real list \<Rightarrow> nat \<Rightarrow> (nat \<times> real) list" where
  "indexed_pairs ts n = map (\<lambda>i. (i, ts ! i)) [0..<n]"

definition sort_by_time :: "(nat \<times> real) list \<Rightarrow> (nat \<times> real) list" where
  "sort_by_time indexed = sort_key snd indexed"

text \<open>
  The state of the loops that build the chunk table: the table, \<^verbatim>\<open>currentChunk\<close> and
  \<^verbatim>\<open>chunkStart\<close>. \<open>fill_empty\<close> is the inner loop \<^verbatim>\<open>while (currentChunk < targetChunk)\<close> at sorted
  position \<open>i\<close>, \<open>chunk_step\<close> one round of the loop over the sorted positions, and
  \<open>fill_remaining\<close> the last loop \<^verbatim>\<open>while (currentChunk < this.chunkCount)\<close>.
\<close>

type_synonym chunk_state = "chunk option list \<times> nat \<times> nat"

function fill_empty :: "real \<Rightarrow> int \<Rightarrow> nat \<Rightarrow> chunk_state \<Rightarrow> chunk_state" where
  "fill_empty chunkSize targetChunk i (chs, currentChunk, chunkStart) =
     (if int currentChunk < targetChunk
      then fill_empty chunkSize targetChunk i
             (chs[currentChunk := Some \<lparr>startIndex = chunkStart, endIndex = i,
                     timeStart = real currentChunk * chunkSize,
                     timeEnd = (real currentChunk + 1) * chunkSize\<rparr>],
              currentChunk + 1, i)
      else (chs, currentChunk, chunkStart))"
  by pat_completeness auto
termination
  by (relation "measure (\<lambda>(cs, t, i, chs, cur, st). nat (t - int cur))") auto

definition chunk_step :: "nat \<Rightarrow> real \<Rightarrow> (nat \<times> real) list \<Rightarrow> nat \<Rightarrow> chunk_state \<Rightarrow> chunk_state" where
  "chunk_step n chunkSize indexed i st =
     (let time = snd (indexed ! i);
          targetChunk = min \<lfloor>time / chunkSize\<rfloor> (int n - 1)
      in fill_empty chunkSize targetChunk i st)"

function fill_remaining :: "nat \<Rightarrow> real \<Rightarrow> nat \<Rightarrow> chunk_state \<Rightarrow> chunk_state" where
  "fill_remaining n chunkSize cnt (chs, currentChunk, chunkStart) =
     (if currentChunk < n
      then fill_remaining n chunkSize cnt
             (chs[currentChunk := Some \<lparr>startIndex = chunkStart, endIndex = cnt,
                     timeStart = real currentChunk * chunkSize,
                     timeEnd = (real currentChunk + 1) * chunkSize\<rparr>],
              currentChunk + 1, chunkStart)
      else (chs, currentChunk, chunkStart))"
  by pat_completeness auto
termination
  by (relation "measure (\<lambda>(n, cs, cnt, chs, cur, st). n - cur)") auto

definition build_chunks :: "nat \<Rightarrow> (nat \<times> real) list \<Rightarrow> nat \<Rightarrow> chunk option list" where
  "build_chunks n indexed cnt =
     (let chunkSize = 1 / real n;
          st = fold (chunk_step n chunkSize indexed) [0..<cnt] (replicate n None, 0, 0)
      in fst (fill_remaining n chunkSize cnt st))"

text \<open>
  \<^verbatim>\<open>build\<close>: \<^verbatim>\<open>new Array(count)\<close> and \<^verbatim>\<open>new Array(this.chunkCount)\<close> throw when their argument
  reaches \<open>2^32\<close>; otherwise the index holds the data, the sorted record indices (a
  \<^verbatim>\<open>Uint32Array\<close>) and the chunk table.
\<close>

definition TimeChunker_build :: "timeChunker \<Rightarrow> processedData \<Rightarrow> js_error + timeChunker" where
  "TimeChunker_build tc processedData =
     (if 2 ^ 32 \<le> count processedData then Inl RangeError
      else let indexed = sort_by_time (indexed_pairs (times_arr processedData) (count processedData))
           in if 2 ^ 32 \<le> chunkCount tc then Inl RangeError
              else Inr (tc\<lparr>data := Some processedData,
                           sortedIndices := Some (map (\<lambda>p. word_of_nat (fst p)) indexed),
                           chunks := build_chunks (chunkCount tc) indexed (count processedData)\<rparr>))"


text \<open>
  The binary searches. \<open>time_at\<close> is \<^verbatim>\<open>times[this.sortedIndices[mid]]\<close>: \<^verbatim>\<open>undefined\<close> when the
  index is past the end of \<^verbatim>\<open>times\<close>, and every comparison with \<^verbatim>\<open>undefined\<close> is false.
  \<^verbatim>\<open>this.sortedIndices.length\<close> throws when \<^verbatim>\<open>sortedIndices\<close> is \<^verbatim>\<open>null\<close>.
\<close>

definition time_at :: "real list \<Rightarrow> 32 word list \<Rightarrow> nat \<Rightarrow> real option" where
  "time_at ts si mid = (let j = unat (si ! mid) in if j < length ts then Some (ts ! j) else None)"

function bsearch_lower :: "real list \<Rightarrow> 32 word list \<Rightarrow> real \<Rightarrow> nat \<Rightarrow> nat \<Rightarrow> nat" where
  "bsearch_lower ts si targetTime low high =
     (if low < high
      then let mid = (low + high) div 2
           in if (case time_at ts si mid of Some time \<Rightarrow> time < targetTime | None \<Rightarrow> False)
              then bsearch_lower ts si targetTime (mid + 1) high
              else bsearch_lower ts si targetTime low mid
      else low)"
  by pat_completeness auto
termination
  by (relation "measure (\<lambda>(ts, si, t, low, high). high - low)") auto

function bsearch_upper :: "real list \<Rightarrow> 32 word list \<Rightarrow> real \<Rightarrow> nat \<Rightarrow> nat \<Rightarrow> nat" where
  "bsearch_upper ts si targetTime low high =
     (if low < high
      then let mid = (low + high) div 2
           in if (case time_at ts si mid of Some time \<Rightarrow> time \<le> targetTime | None \<Rightarrow> False)
              then bsearch_upper ts si targetTime (mid + 1) high
              else bsearch_upper ts si targetTime low mid
      else low)"
  by pat_completeness auto
termination
  by (relation "measure (\<lambda>(ts, si, t, low, high). high - low)") auto

definition binarySearchLower :: "timeChunker \<Rightarrow> real \<Rightarrow> js_error + nat" where
  "binarySearchLower tc targetTime =
     (case data tc of
        None \<Rightarrow> Inr 0
      | Some d \<Rightarrow>
          (case sortedIndices tc of
             None \<Rightarrow> Inl TypeError
           | Some si \<Rightarrow> Inr (bsearch_lower (times_arr d) si targetTime 0 (length si))))"

definition binarySearchUpper :: "timeChunker \<Rightarrow> real \<Rightarrow> js_error + nat" where
  "binarySearchUpper tc targetTime =
     (case data tc of
        None \<Rightarrow> Inr 0
      | Some d \<Rightarrow>
          (case sortedIndices tc of
             None \<Rightarrow> Inl TypeError
           | Some si \<Rightarrow> Inr (bsearch_upper (times_arr d) si targetTime 0 (length si))))"

text \<open>
  The two queries. \<^verbatim>\<open>getVisibleRange\<close> returns the empty range when \<^verbatim>\<open>sortedIndices\<close> is
  \<^verbatim>\<open>null\<close>; \<^verbatim>\<open>getOverlappingChunks\<close> reads \<^verbatim>\<open>chunkCount\<close> only.
\<close>

definition getVisibleRange :: "timeChunker \<Rightarrow> real \<Rightarrow> real \<Rightarrow> js_error + (nat \<times> nat)" where
  "getVisibleRange tc currentTime window =
     (case sortedIndices tc of
        None \<Rightarrow> Inr (0, 0)
      | Some si \<Rightarrow>
          (let minTime = currentTime - window;
               maxTime = currentTime + window
           in case binarySearchLower tc minTime of
                Inl e \<Rightarrow> Inl e
              | Inr startIdx \<Rightarrow>
                  (case binarySearchUpper tc maxTime of
                     Inl e \<Rightarrow> Inl e
                   | Inr endIdx \<Rightarrow> Inr (startIdx, endIdx))))"

definition getOverlappingChunks :: "timeChunker \<Rightarrow> real \<Rightarrow> real \<Rightarrow> int list" where
  "getOverlappingChunks tc minTime maxTime =
     (let chunkSize = 1 / real (chunkCount tc);
          startChunk = max 0 \<lfloor>minTime / chunkSize\<rfloor>;
          endChunk = min (int (chunkCount tc) - 1) \<lfloor>maxTime / chunkSize\<rfloor>
      in [startChunk..endChunk])"

section \<open>The spatial grid (src/unnamed/part_000, class SpatialGrid)\<close>

text \<open>
  Arithmetic whose operands can stop being numbers is modelled with \<open>jsnum\<close>: after
  \<^verbatim>\<open>_finalizeCells\<close> has deleted the running sums of a cell, \<^verbatim>\<open>cell.sumX += x\<close> and
  \<^verbatim>\<open>cell.sumX / cell.count\<close> yield NaN, and every comparison with NaN is false. A deleted
  (or absent) property is \<open>None\<close>. The cell key \<^verbatim>\<open>`${cx},${cy},${cz}`\<close> is the triple of
  the three integers, and the \<^verbatim>\<open>Map\<close> of cells an association list in insertion order
  (\<open>AList.update\<close> replaces in place or appends, as \<^verbatim>\<open>Map.set\<close> does). The field
  \<^verbatim>\<open>count\<close> of a cell is named \<open>count_c\<close>, and the fields of a query result that share a
  name with a cell's carry the suffix \<open>_r\<close>.

  In \<open>computeBounds\<close> the six accumulators start at the first point instead of at
  plus and minus infinity: the loop runs at least once there, and
  \<^verbatim>\<open>Math.min(Infinity, x)\<close> is \<open>x\<close>. The three nested loops of \<^verbatim>\<open>querySphere\<close> visit
  the keys of \<open>query_keys\<close> in the same order.
\<close>

datatype jsnum = Num real | NaN

definition js_add_assign :: "jsnum option \<Rightarrow> real \<Rightarrow> jsnum option" where
  "js_add_assign acc x = (case acc of Some (Num s) \<Rightarrow> Some (Num (s + x)) | _ \<Rightarrow> Some NaN)"

definition js_div_count :: "jsnum option \<Rightarrow> nat \<Rightarrow> jsnum" where
  "js_div_count acc n = (case acc of Some (Num s) \<Rightarrow> Num (s / real n) | _ \<Rightarrow> NaN)"

definition js_sub :: "jsnum \<Rightarrow> real \<Rightarrow> jsnum" where
  "js_sub a b = (case a of Num x \<Rightarrow> Num (x - b) | NaN \<Rightarrow> NaN)"

definition js_mul :: "jsnum \<Rightarrow> jsnum \<Rightarrow> jsnum" where
  "js_mul a b = (case (a, b) of (Num x, Num y) \<Rightarrow> Num (x * y) | _ \<Rightarrow> NaN)"

definition js_plus :: "jsnum \<Rightarrow> jsnum \<Rightarrow> jsnum" where
  "js_plus a b = (case (a, b) of (Num x, Num y) \<Rightarrow> Num (x + y) | _ \<Rightarrow> NaN)"

definition js_le :: "jsnum \<Rightarrow> real \<Rightarrow> bool" where
  "js_le a b = (case a of Num x \<Rightarrow> x \<le> b | NaN \<Rightarrow> False)"

definition js_min :: "jsnum \<Rightarrow> jsnum \<Rightarrow> jsnum" where
  "js_min a b = (case (a, b) of (Num x, Num y) \<Rightarrow> Num (min x y) | _ \<Rightarrow> NaN)"

definition js_max :: "jsnum \<Rightarrow> jsnum \<Rightarrow> jsnum" where
  "js_max a b = (case (a, b) of (Num x, Num y) \<Rightarrow> Num (max x y) | _ \<Rightarrow> NaN)"

type_synonym vec3 = "real \<times> real \<times> real"
type_synonym cell_key = "int \<times> int \<times> int"

record cell =
  cx :: int
  cy :: int
  cz :: int
  minX :: real
  minY :: real
  minZ :: real
  maxX :: real
  maxY :: real
  maxZ :: real
  count_c :: nat
  speciesHistogram :: "32 word list"
  timeHistogram :: "32 word list"
  sumX :: "jsnum option"
  sumY :: "jsnum option"
  sumZ :: "jsnum option"
  sumTime :: "jsnum option"
  centroid :: "(jsnum \<times> jsnum \<times> jsnum) option"
  avgTime :: jsnum
  dominantSpecies :: nat

record spatialGrid =
  cellSize :: real
  gridMin :: vec3
  gridMax :: vec3
  gridDims :: "int \<times> int \<times> int"
  cells :: "(cell_key \<times> cell) list"
  totalCells :: int
  populatedCells :: nat
  totalPoints :: nat
  built :: bool

text \<open>
  The constructor, and the two first steps of a build: the bounds of the positions, padded
  by half a cell, and the dimensions of the grid.
\<close>

definition SpatialGrid_new :: "real \<Rightarrow> spatialGrid" where
  "SpatialGrid_new cs =
     \<lparr>cellSize = cs, gridMin = (0, 0, 0), gridMax = (0, 0, 0), gridDims = (0, 0, 0),
      cells = [], totalCells = 0, populatedCells = 0, totalPoints = 0, built = False\<rparr>"

definition point_at :: "real list \<Rightarrow> nat \<Rightarrow> vec3" where
  "point_at ps i = (ps ! (i * 3), ps ! (i * 3 + 1), ps ! (i * 3 + 2))"

definition bounds_step :: "real list \<Rightarrow> nat \<Rightarrow> vec3 \<times> vec3 \<Rightarrow> vec3 \<times> vec3" where
  "bounds_step ps i acc =
     (case (acc, point_at ps i) of
        (((mnX, mnY, mnZ), (mxX, mxY, mxZ)), (x, y, z)) \<Rightarrow>
          ((min mnX x, min mnY y, min mnZ z), (max mxX x, max mxY y, max mxZ z)))"

definition computeBounds :: "spatialGrid \<Rightarrow> real list \<Rightarrow> nat \<Rightarrow> spatialGrid" where
  "computeBounds g ps n =
     (if n = 0 then g\<lparr>gridMin := (0, 0, 0), gridMax := (1, 1, 1)\<rparr>
      else
        (case fold (bounds_step ps) [0..<n] (point_at ps 0, point_at ps 0) of
           ((mnX, mnY, mnZ), (mxX, mxY, mxZ)) \<Rightarrow>
             let pad = cellSize g * (5 / 10)
             in g\<lparr>gridMin := (mnX - pad, mnY - pad, mnZ - pad),
                  gridMax := (mxX + pad, mxY + pad, mxZ + pad)\<rparr>))"

definition computeGridDimensions :: "spatialGrid \<Rightarrow> spatialGrid" where
  "computeGridDimensions g =
     (case (gridMin g, gridMax g) of
        ((mnX, mnY, mnZ), (mxX, mxY, mxZ)) \<Rightarrow>
          let sizeX = mxX - mnX; sizeY = mxY - mnY; sizeZ = mxZ - mnZ;
              dX = max 1 \<lceil>sizeX / cellSize g\<rceil>;
              dY = max 1 \<lceil>sizeY / cellSize g\<rceil>;
              dZ = max 1 \<lceil>sizeZ / cellSize g\<rceil>
          in g\<lparr>gridDims := (dX, dY, dZ), totalCells := dX * dY * dZ\<rparr>)"

text \<open>
  \<^verbatim>\<open>_insertPoints\<close>. \<open>hist_incr\<close> is \<^verbatim>\<open>histogram[k]++\<close> on a typed array, which ignores an
  index outside the array; \<open>pointKey\<close> the cell indices of a point, clamped into the grid;
  \<open>addPoint\<close> the update of the cell with one point, and \<open>insertPoint\<close> one round of the
  loop: the cell under the key is fetched or created, updated, and stored.
\<close>

definition createCell :: "spatialGrid \<Rightarrow> cell_key \<Rightarrow> cell" where
  "createCell g key =
     (case (key, gridMin g) of
        ((kx, ky, kz), (mnX, mnY, mnZ)) \<Rightarrow>
          \<lparr>cx = kx, cy = ky, cz = kz,
           minX = mnX + real_of_int kx * cellSize g,
           minY = mnY + real_of_int ky * cellSize g,
           minZ = mnZ + real_of_int kz * cellSize g,
           maxX = mnX + (real_of_int kx + 1) * cellSize g,
           maxY = mnY + (real_of_int ky + 1) * cellSize g,
           maxZ = mnZ + (real_of_int kz + 1) * cellSize g,
           count_c = 0,
           speciesHistogram = replicate 8 0,
           timeHistogram = replicate 10 0,
           sumX = Some (Num 0), sumY = Some (Num 0), sumZ = Some (Num 0),
           sumTime = Some (Num 0),
           centroid = None, avgTime = Num 0, dominantSpecies = 0\<rparr>)"

definition hist_incr :: "32 word list \<Rightarrow> int \<Rightarrow> 32 word list" where
  "hist_incr h k = (if 0 \<le> k \<and> k < int (length h) then h[nat k := h ! nat k + 1] else h)"

definition pointKey :: "spatialGrid \<Rightarrow> vec3 \<Rightarrow> cell_key" where
  "pointKey g p =
     (case (p, gridMin g, gridDims g) of
        ((x, y, z), (mnX, mnY, mnZ), (dX, dY, dZ)) \<Rightarrow>
          let cellX = \<lfloor>(x - mnX) / cellSize g\<rfloor>;
              cellY = \<lfloor>(y - mnY) / cellSize g\<rfloor>;
              cellZ = \<lfloor>(z - mnZ) / cellSize g\<rfloor>
          in (max 0 (min (dX - 1) cellX), max 0 (min (dY - 1) cellY), max 0 (min (dZ - 1) cellZ)))"

definition addPoint :: "cell \<Rightarrow> vec3 \<Rightarrow> real \<Rightarrow> real \<Rightarrow> cell" where
  "addPoint c p s t =
     (case p of
        (x, y, z) \<Rightarrow>
          c\<lparr>count_c := count_c c + 1,
            speciesHistogram := hist_incr (speciesHistogram c) \<lfloor>s\<rfloor>,
            timeHistogram := hist_incr (timeHistogram c) (min 9 \<lfloor>t * 10\<rfloor>),
            sumX := js_add_assign (sumX c) x,
            sumY := js_add_assign (sumY c) y,
            sumZ := js_add_assign (sumZ c) z,
            sumTime := js_add_assign (sumTime c) t\<rparr>)"

definition insertPoint :: "processedData \<Rightarrow> nat \<Rightarrow> spatialGrid \<Rightarrow> spatialGrid" where
  "insertPoint d i g =
     (let p = point_at (positions d) i;
          key = pointKey g p;
          c = (case map_of (cells g) key of None \<Rightarrow> createCell g key | Some c \<Rightarrow> c)
      in g\<lparr>cells := AList.update key (addPoint c p (species d ! i) (times_arr d ! i)) (cells g)\<rparr>)"

definition insertPoints :: "spatialGrid \<Rightarrow> processedData \<Rightarrow> spatialGrid" where
  "insertPoints g d = fold (insertPoint d) [0..<count d] g"

text \<open>
  \<^verbatim>\<open>_finalizeCells\<close>. \<open>dominant_step\<close> is one round of the scan for the largest bin, which
  replaces the current choice only on a strictly larger count. A cell of count 0 is
  skipped; the others get their centroid, mean time and dominant species, and lose their
  running sums. The counter \<^verbatim>\<open>populatedCells\<close> restarts at 0.
\<close>

definition dominant_step :: "32 word list \<Rightarrow> nat \<Rightarrow> nat \<times> nat \<Rightarrow> nat \<times> nat" where
  "dominant_step h s acc =
     (case acc of (maxCount, dominant) \<Rightarrow>
        if unat (h ! s) > maxCount then (unat (h ! s), s) else (maxCount, dominant))"

definition finalizeCell :: "cell \<Rightarrow> cell" where
  "finalizeCell c =
     (if count_c c = 0 then c
      else c\<lparr>centroid := Some (js_div_count (sumX c) (count_c c),
                              js_div_count (sumY c) (count_c c),
                              js_div_count (sumZ c) (count_c c)),
             avgTime := js_div_count (sumTime c) (count_c c),
             dominantSpecies := snd (fold (dominant_step (speciesHistogram c)) [0..<8] (0, dominantSpecies c)),
             sumX := None, sumY := None, sumZ := None, sumTime := None\<rparr>)"

definition finalizeCells :: "spatialGrid \<Rightarrow> spatialGrid" where
  "finalizeCells g =
     g\<lparr>populatedCells := fold (\<lambda>kc n. if count_c (snd kc) = 0 then n else n + 1) (cells g) 0,
       cells := map (\<lambda>kc. (fst kc, finalizeCell (snd kc))) (cells g)\<rparr>"

text \<open>
  \<^verbatim>\<open>build\<close>: the four steps, on the grid as it is (the map of cells included).
\<close>

definition SpatialGrid_build :: "spatialGrid \<Rightarrow> processedData \<Rightarrow> spatialGrid" where
  "SpatialGrid_build g d =
     (let g1 = computeBounds g (positions d) (count d);
          g2 = computeGridDimensions g1;
          g3 = insertPoints g2 d;
          g4 = finalizeCells g3
      in g4\<lparr>built := True, totalPoints := count d\<rparr>)"

text \<open>
  \<^verbatim>\<open>querySphere\<close>. \<^verbatim>\<open>_emptyResult\<close> has no \<^verbatim>\<open>minTime\<close> and \<^verbatim>\<open>maxTime\<close>; \<open>add_hist\<close> is the
  loop \<^verbatim>\<open>result.histogram[s] += cell.histogram[s]\<close>; \<open>visitCell\<close> the body of the innermost
  loop, for the cell key it is at; \<open>query_keys\<close> the keys the three loops run through.
\<close>

record queryResult =
  totalCount :: nat
  speciesHistogram_r :: "32 word list"
  timeHistogram_r :: "32 word list"
  cellsQueried :: nat
  minTime :: "jsnum option"
  maxTime :: "jsnum option"
  dominantSpecies_r :: nat
  timeSpan :: "jsnum \<times> jsnum"

definition emptyResult :: queryResult where
  "emptyResult =
     \<lparr>totalCount = 0, speciesHistogram_r = replicate 8 0, timeHistogram_r = replicate 10 0,
      cellsQueried = 0, minTime = None, maxTime = None, dominantSpecies_r = 0,
      timeSpan = (Num 0, Num 0)\<rparr>"

definition add_hist :: "nat \<Rightarrow> 32 word list \<Rightarrow> 32 word list \<Rightarrow> 32 word list" where
  "add_hist n rh ch = fold (\<lambda>s h. h[s := h ! s + ch ! s]) [0..<n] rh"

definition js_min_opt :: "jsnum option \<Rightarrow> jsnum \<Rightarrow> jsnum option" where
  "js_min_opt a b = (case a of Some x \<Rightarrow> Some (js_min x b) | None \<Rightarrow> Some NaN)"

definition js_max_opt :: "jsnum option \<Rightarrow> jsnum \<Rightarrow> jsnum option" where
  "js_max_opt a b = (case a of Some x \<Rightarrow> Some (js_max x b) | None \<Rightarrow> Some NaN)"

definition visitCell :: "spatialGrid \<Rightarrow> vec3 \<Rightarrow> real \<Rightarrow> cell_key \<Rightarrow> queryResult \<Rightarrow> queryResult" where
  "visitCell g center radiusSq key r =
     (case map_of (cells g) key of
        None \<Rightarrow> r
      | Some c \<Rightarrow>
          if count_c c = 0 then r
          else
            (case centroid c of
               None \<Rightarrow> r
             | Some (c0, c1, c2) \<Rightarrow>
                 (case center of
                    (x, y, z) \<Rightarrow>
                      let dx = js_sub c0 x; dy = js_sub c1 y; dz = js_sub c2 z;
                          distSq = js_plus (js_plus (js_mul dx dx) (js_mul dy dy)) (js_mul dz dz)
                      in if js_le distSq radiusSq
                         then r\<lparr>cellsQueried := cellsQueried r + 1,
                                totalCount := totalCount r + count_c c,
                                speciesHistogram_r := add_hist 8 (speciesHistogram_r r) (speciesHistogram c),
                                timeHistogram_r := add_hist 10 (timeHistogram_r r) (timeHistogram c),
                                minTime := js_min_opt (minTime r) (avgTime c),
                                maxTime := js_max_opt (maxTime r) (avgTime c)\<rparr>
                         else r)))"

definition findDominantSpecies :: "32 word list \<Rightarrow> nat" where
  "findDominantSpecies histogram = snd (fold (dominant_step histogram) [0..<8] (0, 0))"

definition query_keys :: "spatialGrid \<Rightarrow> vec3 \<Rightarrow> real \<Rightarrow> cell_key list" where
  "query_keys g center radius =
     (case (center, gridMin g, gridDims g) of
        ((x, y, z), (mnX, mnY, mnZ), (dX, dY, dZ)) \<Rightarrow>
          let minCX = \<lfloor>(x - radius - mnX) / cellSize g\<rfloor>;
              maxCX = \<lceil>(x + radius - mnX) / cellSize g\<rceil>;
              minCY = \<lfloor>(y - radius - mnY) / cellSize g\<rfloor>;
              maxCY = \<lceil>(y + radius - mnY) / cellSize g\<rceil>;
              minCZ = \<lfloor>(z - radius - mnZ) / cellSize g\<rfloor>;
              maxCZ = \<lceil>(z + radius - mnZ) / cellSize g\<rceil>;
              startX = max 0 minCX; endX = min (dX - 1) maxCX;
              startY = max 0 minCY; endY = min (dY - 1) maxCY;
              startZ = max 0 minCZ; endZ = min (dZ - 1) maxCZ
          in concat (map (\<lambda>kx. concat (map (\<lambda>ky. map (\<lambda>kz. (kx, ky, kz)) [startZ..endZ]) [startY..endY])) [startX..endX]))"

definition querySphere :: "spatialGrid \<Rightarrow> vec3 \<Rightarrow> real \<Rightarrow> queryResult" where
  "querySphere g center radius =
     (if \<not> built g then emptyResult
      else
        let r0 = \<lparr>totalCount = 0, speciesHistogram_r = replicate 8 0,
                  timeHistogram_r = replicate 10 0, cellsQueried = 0,
                  minTime = Some (Num 1), maxTime = Some (Num 0),
                  dominantSpecies_r = 0, timeSpan = (Num 0, Num 0)\<rparr>;
            radiusSq = radius * radius;
            r = fold (visitCell g center radiusSq) (query_keys g center radius) r0
        in r\<lparr>dominantSpecies_r := findDominantSpecies (speciesHistogram_r r),
             timeSpan := (if totalCount r > 0
                          then (case (minTime r, maxTime r) of
                                  (Some a, Some b) \<Rightarrow> (a, b) | _ \<Rightarrow> (NaN, NaN))
                          else (Num 0, Num 0))\<rparr>)"

text \<open>
  \<^verbatim>\<open>getStats\<close>; the fields carry the prefix \<open>st_\<close>.
\<close>

record gridStats =
  st_cellSize :: real
  st_gridDims :: "int \<times> int \<times> int"
  st_totalCells :: int
  st_populatedCells :: nat
  st_totalPoints :: nat
  st_memoryEstimate :: nat

definition getStats :: "spatialGrid \<Rightarrow> gridStats" where
  "getStats g =
     \<lparr>st_cellSize = cellSize g, st_gridDims = gridDims g, st_totalCells = totalCells g,
      st_populatedCells = populatedCells g, st_totalPoints = totalPoints g,
      st_memoryEstimate = populatedCells g * 100\<rparr>"

section \<open>rendering/DensityAggregator.js: levels of detail\<close>

text \<open>
  A level is a point set with its \<^verbatim>\<open>lodLevel\<close>; level 0 is the input with \<^verbatim>\<open>lodLevel: 0\<close>
  added. The key \<^verbatim>\<open>`${cellX},${cellY},${cellZ},${cellT}`\<close> is the quadruple of the four
  integers. The fields \<^verbatim>\<open>sumX\<close>, \<^verbatim>\<open>sumY\<close>, \<^verbatim>\<open>sumZ\<close> and \<^verbatim>\<open>count\<close> of an
  aggregation cell carry the suffix \<open>_a\<close>, the parameter \<^verbatim>\<open>cellSize\<close> is \<open>cellSz\<close>, and the
  members of \<^verbatim>\<open>cellSizes\<close> the suffix \<open>_size\<close>. \<^verbatim>\<open>speciesCounts[s]++\<close> indexes a typed
  array with the species value itself: it counts only when that value is an integer from
  0 to 7. A point set always carries its \<^verbatim>\<open>densities\<close>, so \<^verbatim>\<open>densities ? densities[i] : 1\<close>
  is \<^verbatim>\<open>densities[i]\<close>. The output arrays start as zeros (\<^verbatim>\<open>new Float32Array\<close>) and
  \<open>write_cells\<close> is the loop over \<^verbatim>\<open>cells.values()\<close> with its counter \<open>i\<close>.
\<close>

record level = processedData +
  lodLevel :: nat

record agg_cell =
  sumX_a :: real
  sumY_a :: real
  sumZ_a :: real
  sumT :: real
  sumD :: real
  count_a :: nat
  speciesCounts :: "32 word list"

record cell_sizes =
  fine_size :: real
  medium_size :: real
  coarse_size :: real

record lod_levels =
  fine :: "level option"
  medium :: "level option"
  coarse :: "level option"

record densityAggregator =
  cellSizes :: cell_sizes
  levels :: lod_levels
  sourceData :: "processedData option"

type_synonym agg_key = "int \<times> int \<times> int \<times> int"

definition DensityAggregator_new :: "cell_sizes option \<Rightarrow> densityAggregator" where
  "DensityAggregator_new options =
     \<lparr>cellSizes = (case options of
                     Some sizes \<Rightarrow> sizes
                   | None \<Rightarrow> \<lparr>fine_size = 1 / 100, medium_size = 5 / 100, coarse_size = 2 / 10\<rparr>),
      levels = \<lparr>fine = None, medium = None, coarse = None\<rparr>,
      sourceData = None\<rparr>"

definition aggKey :: "processedData \<Rightarrow> real \<Rightarrow> nat \<Rightarrow> agg_key" where
  "aggKey d cellSz i =
     (case point_at (positions d) i of
        (x, y, z) \<Rightarrow>
          (\<lfloor>x / cellSz\<rfloor>, \<lfloor>y / cellSz\<rfloor>, \<lfloor>z / cellSz\<rfloor>, \<lfloor>times_arr d ! i * 30\<rfloor>))"

definition new_agg_cell :: agg_cell where
  "new_agg_cell =
     \<lparr>sumX_a = 0, sumY_a = 0, sumZ_a = 0, sumT = 0, sumD = 0, count_a = 0,
      speciesCounts = replicate 8 0\<rparr>"

definition species_incr :: "32 word list \<Rightarrow> real \<Rightarrow> 32 word list" where
  "species_incr h s = (if real_of_int \<lfloor>s\<rfloor> = s then hist_incr h \<lfloor>s\<rfloor> else h)"

definition agg_add :: "processedData \<Rightarrow> nat \<Rightarrow> agg_cell \<Rightarrow> agg_cell" where
  "agg_add d i c =
     (case point_at (positions d) i of
        (x, y, z) \<Rightarrow>
          c\<lparr>sumX_a := sumX_a c + x, sumY_a := sumY_a c + y, sumZ_a := sumZ_a c + z,
            sumT := sumT c + times_arr d ! i,
            sumD := sumD c + densities d ! i,
            count_a := count_a c + 1,
            speciesCounts := species_incr (speciesCounts c) (species d ! i)\<rparr>)"

definition agg_step :: "processedData \<Rightarrow> real \<Rightarrow> nat \<Rightarrow> (agg_key \<times> agg_cell) list \<Rightarrow> (agg_key \<times> agg_cell) list" where
  "agg_step d cellSz i cs =
     (let key = aggKey d cellSz i;
          c = (case map_of cs key of None \<Rightarrow> new_agg_cell | Some c \<Rightarrow> c)
      in AList.update key (agg_add d i c) cs)"

definition agg_cells :: "processedData \<Rightarrow> real \<Rightarrow> (agg_key \<times> agg_cell) list" where
  "agg_cells d cellSz = fold (agg_step d cellSz) [0..<count d] []"

definition count_density :: "nat \<Rightarrow> real" where
  "count_density k = min 1 (log 10 (real (k + 1)) / 3)"

fun write_cells :: "nat \<Rightarrow> agg_cell list \<Rightarrow> level \<Rightarrow> level" where
  "write_cells i [] out = out"
| "write_cells i (c # cs) out =
     write_cells (i + 1) cs
       (out\<lparr>positions := (positions out)
                [i * 3 := sumX_a c / real (count_a c),
                 i * 3 + 1 := sumY_a c / real (count_a c),
                 i * 3 + 2 := sumZ_a c / real (count_a c)],
            times_arr := (times_arr out)[i := sumT c / real (count_a c)],
            species := (species out)[i := real (snd (fold (dominant_step (speciesCounts c)) [0..<8] (0, 0)))],
            densities := (densities out)[i := count_density (count_a c)]\<rparr>)"

definition aggregateLevel :: "processedData \<Rightarrow> real \<Rightarrow> nat \<Rightarrow> level" where
  "aggregateLevel d cellSz lod =
     (let cs = agg_cells d cellSz;
          cellCount = length cs
      in write_cells 0 (map snd cs)
           \<lparr>positions = replicate (cellCount * 3) 0, times_arr = replicate cellCount 0,
            species = replicate cellCount 0, densities = replicate cellCount 0,
            count = cellCount, lodLevel = lod\<rparr>)"

definition process :: "densityAggregator \<Rightarrow> processedData \<Rightarrow> densityAggregator" where
  "process da d =
     da\<lparr>sourceData := Some d,
        levels := \<lparr>fine = Some (processedData.extend d \<lparr>lodLevel = 0\<rparr>),
                   medium = Some (aggregateLevel d (medium_size (cellSizes da)) 1),
                   coarse = Some (aggregateLevel d (coarse_size (cellSizes da)) 2)\<rparr>\<rparr>"

text \<open>\<^verbatim>\<open>LOD_DISTANCES\<close> of the shared constants: \<^verbatim>\<open>detail: 0.5, medium: 2.0\<close>.\<close>

definition LOD_DISTANCES_detail :: real where
  "LOD_DISTANCES_detail = 5 / 10"

definition LOD_DISTANCES_medium :: real where
  "LOD_DISTANCES_medium = 2"

definition getLevelForDistance :: "densityAggregator \<Rightarrow> real \<Rightarrow> level option" where
  "getLevelForDistance da distance =
     (if distance < LOD_DISTANCES_detail then fine (levels da)
      else if distance < LOD_DISTANCES_medium then medium (levels da)
      else coarse (levels da))"

section \<open>Notions the statements use\<close>

text \<open>
  The populated cells of a grid are those of non-zero count, and a cell key lies in the
  grid when each index is at least 0 and below the dimension of its axis.
\<close>

definition populated :: "spatialGrid \<Rightarrow> (cell_key \<times> cell) list" where
  "populated g = filter (\<lambda>kc. count_c (snd kc) \<noteq> 0) (cells g)"

definition key_in_dims :: "int \<times> int \<times> int \<Rightarrow> cell_key \<Rightarrow> bool" where
  "key_in_dims dims k =
     (case (dims, k) of
        ((dX, dY, dZ), (kx, ky, kz)) \<Rightarrow> 0 \<le> kx \<and> kx < dX \<and> 0 \<le> ky \<and> ky < dY \<and> 0 \<le> kz \<and> kz < dZ)"

text \<open>
  The bounding box of a grid is the set of points between \<open>gridMin\<close> and \<open>gridMax\<close>,
  component by component; a sphere covers the grid when every point of that box is within
  \<open>radius\<close> (Euclidean distance) of \<open>center\<close>.
\<close>

definition vec_le :: "vec3 \<Rightarrow> vec3 \<Rightarrow> bool" where
  "vec_le a b = (case (a, b) of ((ax, ay, az), (bx, by, bz)) \<Rightarrow> ax \<le> bx \<and> ay \<le> by \<and> az \<le> bz)"

definition in_box :: "vec3 \<Rightarrow> vec3 \<Rightarrow> vec3 \<Rightarrow> bool" where
  "in_box lo hi p = (vec_le lo p \<and> vec_le p hi)"

definition dist3 :: "vec3 \<Rightarrow> vec3 \<Rightarrow> real" where
  "dist3 p q = (case (p, q) of ((px, py, pz), (qx, qy, qz)) \<Rightarrow>
                  sqrt ((px - qx) * (px - qx) + (py - qy) * (py - qy) + (pz - qz) * (pz - qz)))"

definition sphere_covers_grid :: "spatialGrid \<Rightarrow> vec3 \<Rightarrow> real \<Rightarrow> bool" where
  "sphere_covers_grid g center radius =
     (\<forall>p. in_box (gridMin g) (gridMax g) p \<longrightarrow> dist3 p center \<le> radius)"

text \<open>
  Two point sets are the same but for their density weights; and the number of points
  merged into the key of output point \<open>j\<close> of an aggregated level.
\<close>

definition same_but_densities :: "processedData \<Rightarrow> processedData \<Rightarrow> bool" where
  "same_but_densities d d' =
     (positions d' = positions d \<and> times_arr d' = times_arr d \<and> species d' = species d
      \<and> count d' = count d)"

definition merged_count :: "processedData \<Rightarrow> real \<Rightarrow> nat \<Rightarrow> nat" where
  "merged_count d cellSz j = card {i. i < count d \<and> aggKey d cellSz i = fst (agg_cells d cellSz ! j)}"

text \<open>The start and end index of every chunk of a built temporal index.\<close>

definition chunk_ranges :: "js_error + timeChunker \<Rightarrow> (nat \<times> nat) option list" where
  "chunk_ranges r = (case r of Inl e \<Rightarrow> [] | Inr tc \<Rightarrow> map (map_option (\<lambda>c. (startIndex c, endIndex c))) (chunks tc))"

section \<open>Notions the proofs use\<close>

text \<open>
  The sum of the counts of a list of cells, the count stored under a key (0 when the key
  is absent), positive grid dimensions, and the state of the grid after the insertion
  pass of a build.
\<close>

definition total_count :: "(cell_key \<times> cell) list \<Rightarrow> nat" where
  "total_count al = sum_list (map (\<lambda>kc. count_c (snd kc)) al)"

definition count_at :: "(cell_key \<times> cell) list \<Rightarrow> cell_key \<Rightarrow> nat" where
  "count_at al k = (case map_of al k of None \<Rightarrow> 0 | Some c \<Rightarrow> count_c c)"

definition dims_positive :: "int \<times> int \<times> int \<Rightarrow> bool" where
  "dims_positive dims = (case dims of (dX, dY, dZ) \<Rightarrow> 1 \<le> dX \<and> 1 \<le> dY \<and> 1 \<le> dZ)"

definition inserted :: "spatialGrid \<Rightarrow> processedData \<Rightarrow> spatialGrid" where
  "inserted g d = insertPoints (computeGridDimensions (computeBounds g (positions d) (count d))) d"

text \<open>
  The sum of the entries of a histogram, read as unsigned numbers. The histograms of a
  cell are sound when they have their 8 and 10 entries and each adds up to the count of
  the cell, which is at most \<open>n\<close>; those of a query result when each adds up to
  \<open>totalCount\<close>.
\<close>

definition hsum :: "32 word list \<Rightarrow> nat" where
  "hsum h = sum_list (map unat h)"

definition hist_ok :: "nat \<Rightarrow> cell \<Rightarrow> bool" where
  "hist_ok n c =
     (length (speciesHistogram c) = 8 \<and> length (timeHistogram c) = 10
      \<and> hsum (speciesHistogram c) = count_c c \<and> hsum (timeHistogram c) = count_c c
      \<and> count_c c \<le> n)"

definition result_ok :: "queryResult \<Rightarrow> bool" where
  "result_ok r =
     (length (speciesHistogram_r r) = 8 \<and> length (timeHistogram_r r) = 10
      \<and> hsum (speciesHistogram_r r) = totalCount r \<and> hsum (timeHistogram_r r) = totalCount r)"

text \<open>
  The bounding box of the data before padding. The running sums of a cell stay numbers,
  between count times the lower and count times the upper bound of the data; after
  finalisation the centroid of a populated cell is a point of the box, and a cell is in a
  sphere when its centroid passes the test of \<^verbatim>\<open>querySphere\<close>.
\<close>

definition data_box :: "real list \<Rightarrow> nat \<Rightarrow> vec3 \<times> vec3" where
  "data_box ps n = fold (bounds_step ps) [0..<n] (point_at ps 0, point_at ps 0)"

definition vec_shift :: "vec3 \<Rightarrow> real \<Rightarrow> vec3" where
  "vec_shift a r = (case a of (x, y, z) \<Rightarrow> (x + r, y + r, z + r))"

definition sum_within :: "nat \<Rightarrow> real \<Rightarrow> real \<Rightarrow> jsnum option \<Rightarrow> bool" where
  "sum_within n lo hi acc = (case acc of Some (Num s) \<Rightarrow> real n * lo \<le> s \<and> s \<le> real n * hi | _ \<Rightarrow> False)"

definition sums_ok :: "vec3 \<times> vec3 \<Rightarrow> cell \<Rightarrow> bool" where
  "sums_ok box c =
     (case box of ((lx, ly, lz), (hx, hy, hz)) \<Rightarrow>
        sum_within (count_c c) lx hx (sumX c) \<and> sum_within (count_c c) ly hy (sumY c)
        \<and> sum_within (count_c c) lz hz (sumZ c)
        \<and> (\<exists>st. sumTime c = Some (Num st)))"

definition centroid_in :: "vec3 \<Rightarrow> vec3 \<Rightarrow> cell \<Rightarrow> bool" where
  "centroid_in lo hi c =
     (\<exists>a b c'. centroid c = Some (Num a, Num b, Num c') \<and> in_box lo hi (a, b, c'))"

definition cell_in_sphere :: "vec3 \<Rightarrow> real \<Rightarrow> cell \<Rightarrow> bool" where
  "cell_in_sphere center radiusSq c =
     (\<exists>a b c'. centroid c = Some (Num a, Num b, Num c')
        \<and> (case center of (x, y, z) \<Rightarrow>
              (a - x) * (a - x) + (b - y) * (b - y) + (c' - z) * (c' - z) \<le> radiusSq))"

text \<open>
  An aggregation cell without its sum of density weights, and the count stored under a
  key of the aggregation.
\<close>

definition drop_sumD :: "agg_cell \<Rightarrow> agg_cell" where
  "drop_sumD c = c\<lparr>sumD := 0\<rparr>"

definition forget_sumD :: "(agg_key \<times> agg_cell) list \<Rightarrow> (agg_key \<times> agg_cell) list" where
  "forget_sumD al = map (\<lambda>kc. (fst kc, drop_sumD (snd kc))) al"

definition acount :: "(agg_key \<times> agg_cell) list \<Rightarrow> agg_key \<Rightarrow> nat" where
  "acount al k = (case map_of al k of None \<Rightarrow> 0 | Some c \<Rightarrow> count_a c)"

section \<open>Concrete inputs\<close>

text \<open>
  \<open>psA\<close>: two points five units apart; \<open>psB\<close>: the first of them alone; \<open>ps1\<close>: one point
  at time 0; \<open>ps3\<close>: three points, two of them at the same time, and \<open>ps3'\<close> the same with
  other density weights.
\<close>

definition psA :: processedData where
  "psA = \<lparr>positions = [0, 0, 0, 5, 0, 0], times_arr = [0, 1], species = [1, 2],
          densities = [1, 1], count = 2\<rparr>"

definition psB :: processedData where
  "psB = \<lparr>positions = [0, 0, 0], times_arr = [0], species = [1], densities = [1], count = 1\<rparr>"

definition ps1 :: processedData where
  "ps1 = \<lparr>positions = [0,0,0], times_arr = [0], species = [0], densities = [1], count = 1\<rparr>"

definition ps3 :: processedData where
  "ps3 = \<lparr>positions = [0, 0, 0, 1, 0, 0, 2, 0, 0], times_arr = [1 / 2, 1 / 5, 1 / 2],
          species = [0, 3, 7], densities = [1, 1 / 2, 0], count = 3\<rparr>"

definition ps3' :: processedData where
  "ps3' = ps3\<lparr>densities := [0, 1, 1 / 2]\<rparr>"

text \<open>The inputs of the scenarios A and C of the specification.\<close>

definition psScenarioA :: processedData where
  "psScenarioA = \<lparr>positions = [1, 2, 3, 1, 2, 3, 1, 2, 3, 1, 2, 3], times_arr = [0, 0, 0, 0],
                  species = [1, 1, 2, 3], densities = [1, 1, 1, 1], count = 4\<rparr>"

definition psScenarioC :: processedData where
  "psScenarioC = \<lparr>positions = replicate 27 0,
                  times_arr = [0, 1 / 9, 2 / 9, 3 / 9, 4 / 9, 5 / 9, 6 / 9, 7 / 9, 8 / 9],
                  species = replicate 9 0, densities = replicate 9 1, count = 9\<rparr>"

section \<open>Proofs: the confidence formula\<close>

lemma densityConfidence_mono: "d1 \<le> d2 \<Longrightarrow> densityConfidence d1 \<le> densityConfidence d2"
  by (simp add: densityConfidence_def)

lemma densityConfidence_upper: "densityConfidence d < 9 / 10"
proof -
  have "0 < exp (- d * 3)" by simp
  then show ?thesis unfolding densityConfidence_def by (simp add: algebra_simps)
qed

lemma densityConfidence_lower: "0 \<le> d \<Longrightarrow> 2 / 10 \<le> densityConfidence d"
  unfolding densityConfidence_def by simp

lemma lodConfidenceMultiplier_range:
  "l \<le> 4 \<Longrightarrow> 0 \<le> lodConfidenceMultiplier l \<and> lodConfidenceMultiplier l \<le> 1"
  by (simp add: lodConfidenceMultiplier_def)

lemma lodConfidenceMultiplier_antimono:
  "l1 \<le> l2 \<Longrightarrow> lodConfidenceMultiplier l2 \<le> lodConfidenceMultiplier l1"
  by (simp add: lodConfidenceMultiplier_def)

lemma confidence_closed_range: "1 / 10 \<le> confidence d l \<and> confidence d l \<le> 95 / 100"
  by (simp add: confidence_def)

lemma finalConfidence_upper:
  assumes "l \<le> 4"
  shows "finalConfidence d l < 9 / 10"
proof (cases "0 \<le> densityConfidence d")
  case True
  have m: "0 \<le> lodConfidenceMultiplier l" "lodConfidenceMultiplier l \<le> 1"
    using lodConfidenceMultiplier_range [OF assms] by simp_all
  have "densityConfidence d * lodConfidenceMultiplier l \<le> densityConfidence d * 1"
    by (rule mult_left_mono) (use True m in simp_all)
  then show ?thesis
    using densityConfidence_upper [of d] by (simp add: finalConfidence_def)
next
  case False
  have m: "0 \<le> lodConfidenceMultiplier l"
    using lodConfidenceMultiplier_range [OF assms] by simp
  have "densityConfidence d * lodConfidenceMultiplier l \<le> 0"
    by (rule mult_nonpos_nonneg) (use False m in simp_all)
  then show ?thesis by (simp add: finalConfidence_def)
qed

lemma finalConfidence_mono_density:
  assumes "l \<le> 4" and "d1 \<le> d2"
  shows "finalConfidence d1 l \<le> finalConfidence d2 l"
  unfolding finalConfidence_def
  by (rule mult_right_mono)
     (use assms densityConfidence_mono lodConfidenceMultiplier_range in simp_all)

lemma finalConfidence_antimono_lod:
  assumes "0 \<le> d" and "l1 \<le> l2"
  shows "finalConfidence d l2 \<le> finalConfidence d l1"
  unfolding finalConfidence_def
proof (rule mult_left_mono)
  show "lodConfidenceMultiplier l2 \<le> lodConfidenceMultiplier l1"
    using assms(2) by (rule lodConfidenceMultiplier_antimono)
  show "0 \<le> densityConfidence d"
    using densityConfidence_lower [OF assms(1)] by simp
qed

lemma confidence_mono_final:
  "finalConfidence d1 l1 \<le> finalConfidence d2 l2 \<Longrightarrow> confidence d1 l1 \<le> confidence d2 l2"
  unfolding confidence_def by (auto simp: max_def min_def)

text \<open>Scenario D of the specification, at density weight 0 and LOD level 0.\<close>

lemma scenario_D: "confidence 0 0 = 2 / 10"
  by (simp add: confidence_def finalConfidence_def densityConfidence_def lodConfidenceMultiplier_def)

text \<open>
  Claim C4, as stated: for every densityWeight in [0,1] and lodLevel in {0,1,2} the
  confidence lies strictly inside (0.1, 0.95). It fails at the lower end: a density
  weight of 0 at LOD level 2 gives 0.2 * 0.5 = 0.1, which the clamp keeps.
\<close>

theorem confidence_reaches_lower_bound: "confidence 0 2 = 1 / 10"
  by (simp add: confidence_def finalConfidence_def densityConfidence_def lodConfidenceMultiplier_def)

text \<open>
  Claim C4, amended: for every densityWeight in [0,1] and lodLevel in {0,1,2} the
  confidence lies in the half-open interval [0.1, 0.95): the lower bound 0.1 can be
  reached, the upper bound 0.95 never is.
\<close>

theorem confidence_half_open_range:
  assumes "0 \<le> d" and "d \<le> 1" and "l \<le> 2"
  shows "1 / 10 \<le> confidence d l \<and> confidence d l < 95 / 100"
proof -
  have "l \<le> 4" using assms(3) by simp
  then have "finalConfidence d l < 9 / 10" by (rule finalConfidence_upper)
  then show ?thesis by (simp add: confidence_def)
qed

theorem confidence_half_open_range_witness:
  "(0::real) \<le> 1 \<and> (1::real) \<le> 1 \<and> (0::nat) \<le> 2
   \<and> 1 / 10 \<le> confidence 1 0 \<and> confidence 1 0 < 95 / 100"
  using confidence_half_open_range [of 1 0] by simp

lemma confidence_high_lod:
  assumes "4 \<le> l" and "0 \<le> d"
  shows "confidence d l = 1 / 10"
proof -
  have m: "lodConfidenceMultiplier l \<le> 0"
    using assms(1) by (simp add: lodConfidenceMultiplier_def)
  have "0 \<le> densityConfidence d"
    using densityConfidence_lower [OF assms(2)] by simp
  then have "finalConfidence d l \<le> 0"
    unfolding finalConfidence_def using m by (rule mult_nonneg_nonpos)
  then show ?thesis by (simp add: confidence_def)
qed

text \<open>
  Claim C8: the confidence always lies in the closed interval [0.1, 0.95]; for a fixed
  lodLevel it is non-decreasing in densityWeight (over all weights when lodLevel is at
  most 4, as 0, 1 and 2 are, and over the non-negative weights for every lodLevel); for a
  fixed non-negative densityWeight it is non-increasing in lodLevel.
\<close>

theorem confidence_range_and_monotone:
  "(1 / 10 \<le> confidence d l \<and> confidence d l \<le> 95 / 100)
   \<and> ((l \<le> 4 \<or> 0 \<le> d1) \<longrightarrow> d1 \<le> d2 \<longrightarrow> confidence d1 l \<le> confidence d2 l)
   \<and> (0 \<le> d \<longrightarrow> l1 \<le> l2 \<longrightarrow> confidence d l2 \<le> confidence d l1)"
proof (intro conjI impI)
  show "1 / 10 \<le> confidence d l" and "confidence d l \<le> 95 / 100"
    using confidence_closed_range [of d l] by simp_all
  show "confidence d1 l \<le> confidence d2 l" if "l \<le> 4 \<or> 0 \<le> d1" "d1 \<le> d2"
  proof (cases "l \<le> 4")
    case True
    then show ?thesis
      using that(2) by (intro confidence_mono_final finalConfidence_mono_density)
  next
    case False
    then have "4 \<le> l" "0 \<le> d1" "0 \<le> d2" using that by simp_all
    then show ?thesis by (simp add: confidence_high_lod)
  qed
  show "confidence d l2 \<le> confidence d l1" if "0 \<le> d" "l1 \<le> l2"
    using that by (intro confidence_mono_final finalConfidence_antimono_lod)
qed

theorem confidence_range_and_monotone_witness:
  "((1::nat) \<le> 4 \<or> (0::real) \<le> 0) \<and> (0::real) \<le> 1 \<and> (1::nat) \<le> 2
   \<and> 1 / 10 \<le> confidence 1 1 \<and> confidence 1 1 \<le> 95 / 100
   \<and> confidence 0 1 \<le> confidence 1 1
   \<and> confidence 1 2 \<le> confidence 1 1"
  using confidence_range_and_monotone [of 1 1 0 1 1 2] by simp

section \<open>Proofs: the temporal index\<close>

lemma replicate_numeral: "replicate (numeral k) x = x # replicate (pred_numeral k) x"
  by (simp add: numeral_eq_Suc)

lemma upt_0_numeral: "[0..<numeral k] = 0 # map Suc [0..<pred_numeral k]"
  by (simp add: numeral_eq_Suc upt_conv_Cons map_Suc_upt)

subsection \<open>The sorted permutation\<close>

lemma sorted_wrt_filter_nth:
  "sorted_wrt R (filter P xs) \<Longrightarrow> p < q \<Longrightarrow> q < length xs \<Longrightarrow> P (xs ! p) \<Longrightarrow> P (xs ! q)
   \<Longrightarrow> R (xs ! p) (xs ! q)"
proof (induction xs arbitrary: p q)
  case Nil
  then show ?case by simp
next
  case (Cons x xs)
  obtain q' where q: "q = Suc q'" using Cons.prems(2) by (cases q) auto
  show ?case
  proof (cases p)
    case 0
    have "xs ! q' \<in> set (filter P xs)"
      using Cons.prems q by simp
    then show ?thesis
      using Cons.prems 0 q by simp
  next
    case (Suc p')
    have "sorted_wrt R (filter P xs)"
      using Cons.prems(1) by (simp split: if_splits)
    then have "R (xs ! p') (xs ! q')"
      by (rule Cons.IH) (use Cons.prems Suc q in simp_all)
    then show ?thesis using Suc q by simp
  qed
qed

lemma indexed_pairs_props:
  "map fst (indexed_pairs ts n) = [0..<n]"
  "\<forall>p \<in> set (indexed_pairs ts n). snd p = ts ! fst p \<and> fst p < n"
  "sorted_wrt (\<lambda>a b. fst a < fst b) (indexed_pairs ts n)"
  "length (indexed_pairs ts n) = n"
proof -
  show "map fst (indexed_pairs ts n) = [0..<n]"
    by (simp add: indexed_pairs_def comp_def)
  show "\<forall>p \<in> set (indexed_pairs ts n). snd p = ts ! fst p \<and> fst p < n"
    by (auto simp: indexed_pairs_def)
  show "sorted_wrt (\<lambda>a b. fst a < fst b) (indexed_pairs ts n)"
    by (simp add: indexed_pairs_def sorted_wrt_map)
  show "length (indexed_pairs ts n) = n"
    by (simp add: indexed_pairs_def)
qed

lemma sort_by_time_set: "set (sort_by_time xs) = set xs"
  by (simp add: sort_by_time_def)

lemma sort_by_time_length: "length (sort_by_time xs) = length xs"
  by (simp add: sort_by_time_def)

lemma sort_by_time_sorted: "sorted (map snd (sort_by_time xs))"
  by (simp add: sort_by_time_def)

lemma sort_by_time_distinct_fst:
  assumes "distinct (map fst xs)"
  shows "distinct (map fst (sort_by_time xs))"
proof -
  have "distinct xs" and "inj_on fst (set xs)"
    using assms by (simp_all add: distinct_map)
  then show ?thesis
    by (simp add: distinct_map sort_by_time_def)
qed

lemma sort_by_time_stable:
  assumes "sorted_wrt (\<lambda>a b. fst a < fst b) xs"
    and "p < q" and "q < length xs"
    and "snd (sort_by_time xs ! p) = snd (sort_by_time xs ! q)"
  shows "fst (sort_by_time xs ! p) < fst (sort_by_time xs ! q)"
proof -
  define k where "k = snd (sort_by_time xs ! p)"
  have "filter (\<lambda>y. snd y = k) (sort_by_time xs) = filter (\<lambda>y. snd y = k) xs"
    unfolding sort_by_time_def by (rule sort_key_stable)
  moreover have "sorted_wrt (\<lambda>a b. fst a < fst b) (filter (\<lambda>y. snd y = k) xs)"
    using assms(1) by (rule sorted_wrt_filter)
  ultimately have "sorted_wrt (\<lambda>a b. fst a < fst b) (filter (\<lambda>y. snd y = k) (sort_by_time xs))"
    by simp
  then show ?thesis
    by (rule sorted_wrt_filter_nth)
       (use assms k_def in \<open>simp_all add: sort_by_time_length\<close>)
qed

subsection \<open>The chunk table and the queries\<close>

text \<open>
  Scenario C of the specification: nine points at times 0, 1/9, ..., 8/9 and three chunks;
  the chunk boundaries fall at the sorted indices 3 and 6.
\<close>

lemma scenario_C:
  "chunk_ranges (TimeChunker_build (TimeChunker_new 3) psScenarioC) = [Some (0, 3), Some (3, 6), Some (6, 9)]"
  by (simp add: chunk_ranges_def TimeChunker_build_def TimeChunker_new_def psScenarioC_def build_chunks_def
      sort_by_time_def indexed_pairs_def chunk_step_def Let_def replicate_numeral upt_0_numeral)

text \<open>A second build of the temporal index keeps nothing of the first.\<close>

lemma TimeChunker_rebuild_replaces:
  assumes "TimeChunker_build tc dA = Inr tc1"
  shows "TimeChunker_build tc1 dB = TimeChunker_build (TimeChunker_new (chunkCount tc)) dB"
proof -
  have "chunkCount tc1 = chunkCount tc"
    using assms by (auto simp: TimeChunker_build_def Let_def split: if_splits)
  then show ?thesis
    by (simp add: TimeChunker_build_def TimeChunker_new_def Let_def)
qed

text \<open>
  Claim C7: after \<^verbatim>\<open>TemporalIndex.build\<close> has returned, the stored permutation holds every
  record index once, dereferencing it in order yields a non-decreasing sequence of times,
  and the sort is stable: of two records with equal times, the one with the smaller
  record index comes first.
\<close>

theorem build_sorted_stable:
  assumes len: "length (times_arr ps) = count ps"
    and b: "TimeChunker_build tc ps = Inr tc'"
  shows "\<exists>si. sortedIndices tc' = Some si \<and> length si = count ps
           \<and> distinct (map unat si) \<and> set (map unat si) = {0..<count ps}
           \<and> sorted (map (\<lambda>w. times_arr ps ! unat w) si)
           \<and> (\<forall>p q. p < q \<longrightarrow> q < count ps
                 \<longrightarrow> times_arr ps ! unat (si ! p) = times_arr ps ! unat (si ! q)
                 \<longrightarrow> unat (si ! p) < unat (si ! q))"
proof -
  define xs where "xs = indexed_pairs (times_arr ps) (count ps)"
  define ys where "ys = sort_by_time xs"
  define si :: "32 word list" where "si = map (\<lambda>p. word_of_nat (fst p)) ys"
  have small: "count ps < 2 ^ 32"
    using b by (simp add: TimeChunker_build_def split: if_splits)
  have si: "sortedIndices tc' = Some si"
    using b by (auto simp: TimeChunker_build_def Let_def si_def ys_def xs_def split: if_splits)
  have set_ys: "set ys = set xs" by (simp add: ys_def sort_by_time_set)
  have len_ys: "length ys = count ps"
    by (simp add: ys_def xs_def sort_by_time_length indexed_pairs_props)
  have in_ys: "snd p = times_arr ps ! fst p \<and> fst p < count ps" if "p \<in> set ys" for p
    using that indexed_pairs_props(2) [of "times_arr ps" "count ps"] set_ys xs_def by blast
  have unat_si: "map unat si = map fst ys"
  proof -
    have "unat (word_of_nat (fst p) :: 32 word) = fst p" if "p \<in> set ys" for p
      using in_ys [OF that] small by (simp add: unat_of_nat)
    then show ?thesis by (simp add: si_def)
  qed
  have nth_si: "unat (si ! j) = fst (ys ! j)" if "j < count ps" for j
  proof -
    have "unat (si ! j) = map unat si ! j" using that len_ys by (simp add: si_def)
    then show ?thesis using that len_ys by (simp add: unat_si)
  qed
  have d: "distinct (map unat si)"
    unfolding unat_si ys_def
    by (rule sort_by_time_distinct_fst) (simp add: xs_def indexed_pairs_props)
  have s: "set (map unat si) = {0..<count ps}"
  proof -
    have "set (map fst ys) = set (map fst xs)" using set_ys by simp
    then show ?thesis by (simp add: unat_si xs_def indexed_pairs_props del: set_map)
  qed
  have srt: "sorted (map (\<lambda>w. times_arr ps ! unat w) si)"
  proof -
    have "map (\<lambda>w. times_arr ps ! unat w) si = map (\<lambda>j. times_arr ps ! j) (map unat si)"
      by simp
    also have "\<dots> = map snd ys"
      unfolding unat_si using in_ys by simp
    finally show ?thesis by (simp add: ys_def sort_by_time_sorted)
  qed
  have stab: "unat (si ! p) < unat (si ! q)"
    if "p < q" "q < count ps" "times_arr ps ! unat (si ! p) = times_arr ps ! unat (si ! q)" for p q
  proof -
    have pq: "ys ! p \<in> set ys" "ys ! q \<in> set ys" using that len_ys by simp_all
    have "snd (ys ! p) = snd (ys ! q)"
      using that in_ys [OF pq(1)] in_ys [OF pq(2)] by (simp add: nth_si)
    then have "fst (sort_by_time xs ! p) < fst (sort_by_time xs ! q)"
      using that by (intro sort_by_time_stable) (simp_all add: xs_def indexed_pairs_props ys_def)
    then show ?thesis using that by (simp add: nth_si ys_def)
  qed
  show ?thesis
    using si len_ys d s srt stab by (intro exI [of _ si]) (simp add: si_def)
qed

theorem build_sorted_stable_witness:
  "length (times_arr ps3) = count ps3
   \<and> (\<exists>tc'. TimeChunker_build (TimeChunker_new 2) ps3 = Inr tc'
        \<and> (\<exists>si. sortedIndices tc' = Some si \<and> length si = count ps3
              \<and> distinct (map unat si) \<and> set (map unat si) = {0..<count ps3}
              \<and> sorted (map (\<lambda>w. times_arr ps3 ! unat w) si)
              \<and> (\<forall>p q. p < q \<longrightarrow> q < count ps3
                    \<longrightarrow> times_arr ps3 ! unat (si ! p) = times_arr ps3 ! unat (si ! q)
                    \<longrightarrow> unat (si ! p) < unat (si ! q))))"
proof -
  have len: "length (times_arr ps3) = count ps3"
    by (simp add: ps3_def)
  obtain tc' where b: "TimeChunker_build (TimeChunker_new 2) ps3 = Inr tc'"
    by (simp add: TimeChunker_build_def TimeChunker_new_def ps3_def Let_def)
  show ?thesis
    using len b build_sorted_stable [OF len b] by blast
qed

text \<open>
  What the three loops do, in general. When every time is below \<open>(N - 1) / N\<close>, so that no
  point falls into the last of \<open>N\<close> chunks, the last two chunks are the same range, which
  ends at \<open>count\<close> and is not empty.
\<close>

lemma fill_empty_props:
  "fill_empty chunkSize targetChunk i (chs, cur, st) = (chs', cur', st')
   \<Longrightarrow> length chs' = length chs \<and> int cur' = max (int cur) targetChunk \<and> (st' = st \<or> st' = i)"
proof (induction chunkSize targetChunk i "(chs, cur, st)" arbitrary: chs cur st rule: fill_empty.induct)
  case (1 chunkSize targetChunk i chs cur st)
  show ?case
  proof (cases "int cur < targetChunk")
    case True
    let ?chs = "chs[cur := Some \<lparr>startIndex = st, endIndex = i,
                     timeStart = real cur * chunkSize,
                     timeEnd = (real cur + 1) * chunkSize\<rparr>]"
    have "fill_empty chunkSize targetChunk i (?chs, cur + 1, i) = (chs', cur', st')"
      using "1.prems" True by simp
    from "1.hyps" [OF True this] show ?thesis using True by auto
  next
    case False
    then show ?thesis using "1.prems" by auto
  qed
qed

lemma fill_remaining_props:
  "fill_remaining n chunkSize cnt (chs, cur, st) = (chs', cur', st')
   \<Longrightarrow> n \<le> length chs
   \<Longrightarrow> length chs' = length chs
       \<and> (\<forall>j. cur \<le> j \<longrightarrow> j < n \<longrightarrow>
              map_option (\<lambda>c. (startIndex c, endIndex c)) (chs' ! j) = Some (st, cnt))"
proof (induction n chunkSize cnt "(chs, cur, st)" arbitrary: chs cur st rule: fill_remaining.induct)
  case (1 n chunkSize cnt chs cur st)
  show ?case
  proof (cases "cur < n")
    case True
    let ?chs = "chs[cur := Some \<lparr>startIndex = st, endIndex = cnt,
                     timeStart = real cur * chunkSize,
                     timeEnd = (real cur + 1) * chunkSize\<rparr>]"
    have f: "fill_remaining n chunkSize cnt (?chs, cur + 1, st) = (chs', cur', st')"
      using "1.prems"(1) True by simp
    have IH: "length chs' = length ?chs
       \<and> (\<forall>j. cur + 1 \<le> j \<longrightarrow> j < n \<longrightarrow>
              map_option (\<lambda>c. (startIndex c, endIndex c)) (chs' ! j) = Some (st, cnt))"
      by (rule "1.hyps" [OF True f]) (use "1.prems"(2) in simp)
    have keep: "chs' ! cur = ?chs ! cur"
    proof -
      have "fill_remaining n chunkSize cnt (xs, k, st) = (ys, k', s') \<Longrightarrow> j < k \<Longrightarrow> ys ! j = xs ! j"
        for xs ys k k' s' j
      proof (induction n chunkSize cnt "(xs, k, st)" arbitrary: xs k rule: fill_remaining.induct)
        case (1 n chunkSize cnt xs k)
        show ?case
        proof (cases "k < n")
          case True
          have "fill_remaining n chunkSize cnt
                  (xs[k := Some \<lparr>startIndex = st, endIndex = cnt,
                     timeStart = real k * chunkSize,
                     timeEnd = (real k + 1) * chunkSize\<rparr>], k + 1, st) = (ys, k', s')"
            using "1.prems"(1) True by simp
          from "1.hyps" [OF True this] "1.prems"(2) show ?thesis by simp
        next
          case False
          then show ?thesis using "1.prems" by simp
        qed
      qed
      from this [OF f] show ?thesis by simp
    qed
    have here: "map_option (\<lambda>c. (startIndex c, endIndex c)) (chs' ! cur) = Some (st, cnt)"
      using keep True "1.prems"(2) by simp
    have "map_option (\<lambda>c. (startIndex c, endIndex c)) (chs' ! j) = Some (st, cnt)"
      if "cur \<le> j" "j < n" for j
    proof (cases "j = cur")
      case True
      then show ?thesis using here by simp
    next
      case False
      then have "cur + 1 \<le> j" using that(1) by simp
      then show ?thesis using IH that(2) by blast
    qed
    then show ?thesis using IH by simp
  next
    case False
    then show ?thesis using "1.prems" by auto
  qed
qed

lemma fold_chunk_step_props:
  assumes "\<forall>i \<in> set is. \<lfloor>snd (ys ! i) / cs\<rfloor> < int N - 1"
    and "fold (chunk_step N cs ys) is (chs, cur, st) = (chs', cur', st')"
    and "int cur < int N - 1"
  shows "length chs' = length chs \<and> int cur' < int N - 1 \<and> (st' = st \<or> st' \<in> set is)"
  using assms
proof (induction "is" arbitrary: chs cur st)
  case Nil
  then show ?case by simp
next
  case (Cons i "is")
  obtain chs1 cur1 st1 where s: "chunk_step N cs ys i (chs, cur, st) = (chs1, cur1, st1)"
    by (metis prod_cases3)
  then have "fill_empty cs (min \<lfloor>snd (ys ! i) / cs\<rfloor> (int N - 1)) i (chs, cur, st) = (chs1, cur1, st1)"
    by (simp add: chunk_step_def Let_def)
  from fill_empty_props [OF this]
  have p: "length chs1 = length chs" "int cur1 = max (int cur) (min \<lfloor>snd (ys ! i) / cs\<rfloor> (int N - 1))"
    "st1 = st \<or> st1 = i"
    by simp_all
  have c1: "int cur1 < int N - 1"
    using p(2) Cons.prems(1,3) by simp
  have "fold (chunk_step N cs ys) is (chs1, cur1, st1) = (chs', cur', st')"
    using Cons.prems(2) s by simp
  from Cons.IH [OF _ this c1] Cons.prems(1)
  have "length chs' = length chs1 \<and> int cur' < int N - 1 \<and> (st' = st1 \<or> st' \<in> set is)"
    by simp
  then show ?case using p by auto
qed

lemma trailing_chunks_repeat:
  assumes N: "2 \<le> N" "N < 2 ^ 32"
    and n: "0 < count d" "count d < 2 ^ 32" "length (times_arr d) = count d"
    and early: "\<forall>t \<in> set (times_arr d). t * real N < real N - 1"
  shows "\<exists>tc' s. TimeChunker_build (TimeChunker_new N) d = Inr tc' \<and> s < count d
           \<and> chunk_ranges (Inr tc') ! (N - 2) = Some (s, count d)
           \<and> chunk_ranges (Inr tc') ! (N - 1) = Some (s, count d)"
proof -
  define ys where "ys = sort_by_time (indexed_pairs (times_arr d) (count d))"
  define cs where "cs = 1 / real N"
  have tgt: "\<lfloor>snd (ys ! i) / cs\<rfloor> < int N - 1" if "i < count d" for i
  proof -
    have "ys ! i \<in> set ys"
      using that by (simp add: ys_def sort_by_time_length indexed_pairs_props)
    then have "ys ! i \<in> set (indexed_pairs (times_arr d) (count d))"
      by (simp add: ys_def sort_by_time_set)
    then have "snd (ys ! i) = times_arr d ! fst (ys ! i)" "fst (ys ! i) < count d"
      using indexed_pairs_props(2) [of "times_arr d" "count d"] by blast+
    then have "snd (ys ! i) \<in> set (times_arr d)" using n(3) by simp
    then have "snd (ys ! i) * real N < real N - 1" using early by blast
    then have "snd (ys ! i) / cs < real_of_int (int N - 1)"
      by (simp add: cs_def)
    then show ?thesis by (simp add: floor_less_iff)
  qed
  obtain chs1 cur1 st1 where
    f: "fold (chunk_step N cs ys) [0..<count d] (replicate N None, 0, 0) = (chs1, cur1, st1)"
    by (metis prod_cases3)
  have "length chs1 = length (replicate N (None :: chunk option)) \<and> int cur1 < int N - 1
        \<and> (st1 = 0 \<or> st1 \<in> set [0..<count d])"
    by (rule fold_chunk_step_props [OF _ f]) (use tgt N(1) in simp_all)
  then have p: "length chs1 = N" "cur1 \<le> N - 2" "st1 < count d"
    using n(1) N(1) by auto
  obtain chs2 cur2 st2 where
    r: "fill_remaining N cs (count d) (chs1, cur1, st1) = (chs2, cur2, st2)"
    by (metis prod_cases3)
  from fill_remaining_props [OF r] p(1)
  have q: "length chs2 = N"
    "\<And>j. cur1 \<le> j \<Longrightarrow> j < N \<Longrightarrow> map_option (\<lambda>c. (startIndex c, endIndex c)) (chs2 ! j) = Some (st1, count d)"
    by simp_all
  have ch: "build_chunks N ys (count d) = chs2"
    unfolding build_chunks_def Let_def cs_def [symmetric] f r by simp
  define tc' where "tc' = (TimeChunker_new N)\<lparr>data := Some d,
       sortedIndices := Some (map (\<lambda>p. word_of_nat (fst p)) ys), chunks := chs2\<rparr>"
  have b: "TimeChunker_build (TimeChunker_new N) d = Inr tc'"
    unfolding TimeChunker_build_def Let_def ys_def [symmetric] tc'_def TimeChunker_new_def
    using N(2) n(2) by (simp add: ch)
  have "chunk_ranges (Inr tc') ! j = Some (st1, count d)" if "cur1 \<le> j" "j < N" for j
    using that q by (simp add: chunk_ranges_def tc'_def)
  then have "chunk_ranges (Inr tc') ! (N - 2) = Some (st1, count d)"
    "chunk_ranges (Inr tc') ! (N - 1) = Some (st1, count d)"
    using p(2) N(1) by simp_all
  then show ?thesis using b p(3) by blast
qed

text \<open>
  Claim C3 says that the chunk table partitions the sorted permutation: each chunk ends
  where the next starts, and every sorted index lies in exactly one chunk. The loop that
  fills the chunks after the last point never moves \<open>chunkStart\<close>, so when the last
  chunks hold no point they all repeat the range of the last populated chunk. One point
  at time 0 and two chunks: both chunks are the range from 0 to 1.
\<close>

theorem chunks_overlap_when_last_chunks_empty:
  "chunk_ranges (TimeChunker_build (TimeChunker_new 2) ps1) = [Some (0, 1), Some (0, 1)]"
  by (simp add: chunk_ranges_def TimeChunker_build_def TimeChunker_new_def ps1_def build_chunks_def
      sort_by_time_def indexed_pairs_def chunk_step_def Let_def replicate_numeral)

text \<open>
  Claim C5, as stated, has \<^verbatim>\<open>getOverlappingChunks\<close> return an empty list before build.
  It never reads what build stores: on a new index of 30 chunks the window from 0 to 1
  overlaps all 30 chunk ids.
\<close>

theorem getOverlappingChunks_before_build_nonempty:
  "getOverlappingChunks (TimeChunker_new 30) 0 1 = [0..29]
   \<and> getOverlappingChunks (TimeChunker_new 30) 0 1 \<noteq> []"
  by (simp add: getOverlappingChunks_def TimeChunker_new_def)

text \<open>
  Claim C5, amended: no query before build throws. \<^verbatim>\<open>querySphere\<close> on an unbuilt grid
  returns the all-zero empty result, \<^verbatim>\<open>getVisibleRange\<close> before build returns the empty
  range from 0 to 0, and \<^verbatim>\<open>getOverlappingChunks\<close> before build returns the chunk ids from
  \<open>max(0, floor(tMin * chunkCount))\<close> to \<open>min(chunkCount - 1, floor(tMax * chunkCount))\<close>, as
  it does after build.
\<close>

theorem queries_before_build:
  "querySphere (SpatialGrid_new cs) center radius = emptyResult
   \<and> totalCount emptyResult = 0 \<and> cellsQueried emptyResult = 0
   \<and> speciesHistogram_r emptyResult = replicate 8 0
   \<and> timeHistogram_r emptyResult = replicate 10 0
   \<and> dominantSpecies_r emptyResult = 0 \<and> timeSpan emptyResult = (Num 0, Num 0)
   \<and> getVisibleRange (TimeChunker_new n) t w = Inr (0, 0)
   \<and> getOverlappingChunks (TimeChunker_new n) a b
       = [max 0 \<lfloor>a * real n\<rfloor> .. min (int n - 1) \<lfloor>b * real n\<rfloor>]"
  by (simp add: querySphere_def SpatialGrid_new_def emptyResult_def getVisibleRange_def
      TimeChunker_new_def getOverlappingChunks_def)

section \<open>Proofs: the spatial grid\<close>

subsection \<open>Every insertion adds one to one cell\<close>

lemma total_count_update:
  "total_count (AList.update k v al) + count_at al k = total_count al + count_c v"
  by (induction al) (auto simp: total_count_def count_at_def)

lemma count_c_addPoint [simp]: "count_c (addPoint c p s t) = count_c c + 1"
  by (cases p) (simp add: addPoint_def)

lemma count_c_createCell [simp]: "count_c (createCell g key) = 0"
  by (cases key; cases "gridMin g") (simp add: createCell_def)

lemma insertPoint_frame [simp]:
  "cellSize (insertPoint d i g) = cellSize g"
  "gridMin (insertPoint d i g) = gridMin g"
  "gridMax (insertPoint d i g) = gridMax g"
  "gridDims (insertPoint d i g) = gridDims g"
  by (simp_all add: insertPoint_def Let_def)

lemma pointKey_frame:
  "cellSize g' = cellSize g \<Longrightarrow> gridMin g' = gridMin g \<Longrightarrow> gridDims g' = gridDims g
   \<Longrightarrow> pointKey g' p = pointKey g p"
  by (simp add: pointKey_def)

lemma total_count_insertPoint:
  "total_count (cells (insertPoint d i g)) = total_count (cells g) + 1"
proof -
  define key where "key = pointKey g (point_at (positions d) i)"
  define c where "c = (case map_of (cells g) key of None \<Rightarrow> createCell g key | Some c \<Rightarrow> c)"
  have "count_c c = count_at (cells g) key"
    by (simp add: c_def count_at_def split: option.split)
  then show ?thesis
    using total_count_update [of key "addPoint c (point_at (positions d) i) (species d ! i) (times_arr d ! i)" "cells g"]
    unfolding c_def key_def by (simp add: insertPoint_def Let_def)
qed

lemma total_count_fold_insertPoint:
  "total_count (cells (fold (insertPoint d) is g)) = total_count (cells g) + length is"
  by (induction "is" arbitrary: g) (simp_all add: total_count_insertPoint)

lemma count_c_finalizeCell [simp]: "count_c (finalizeCell c) = count_c c"
  by (simp add: finalizeCell_def)

lemma total_count_finalizeCells [simp]:
  "total_count (cells (finalizeCells g)) = total_count (cells g)"
  by (simp add: finalizeCells_def total_count_def comp_def)

lemma total_count_populated: "total_count (populated g) = total_count (cells g)"
proof -
  have "sum_list (map (\<lambda>kc. count_c (snd kc)) (filter (\<lambda>kc. count_c (snd kc) \<noteq> 0) al))
        = sum_list (map (\<lambda>kc. count_c (snd kc)) al)" for al :: "(cell_key \<times> cell) list"
    by (induction al) simp_all
  then show ?thesis by (simp add: populated_def total_count_def)
qed

lemma cells_computeBounds [simp]: "cells (computeBounds g ps n) = cells g"
  by (simp add: computeBounds_def Let_def split: prod.split)

lemma cells_computeGridDimensions [simp]: "cells (computeGridDimensions g) = cells g"
  by (simp add: computeGridDimensions_def Let_def split: prod.split)

lemma populated_build:
  "populated (SpatialGrid_build g d) = populated (finalizeCells (insertPoints (computeGridDimensions (computeBounds g (positions d) (count d))) d))"
  by (simp add: SpatialGrid_build_def Let_def populated_def)

lemma total_count_build:
  "total_count (populated (SpatialGrid_build g d)) = total_count (cells g) + count d"
  by (simp add: populated_build total_count_populated insertPoints_def total_count_fold_insertPoint)

subsection \<open>The keys of the cells and the count under a key\<close>

lemma count_at_insertPoint:
  "count_at (cells (insertPoint d i g)) k
   = count_at (cells g) k + (if pointKey g (point_at (positions d) i) = k then 1 else 0)"
  by (auto simp: insertPoint_def Let_def count_at_def update_conv' split: option.split)

lemma fold_insertPoint_frame [simp]:
  "cellSize (fold (insertPoint d) is g) = cellSize g"
  "gridMin (fold (insertPoint d) is g) = gridMin g"
  "gridMax (fold (insertPoint d) is g) = gridMax g"
  "gridDims (fold (insertPoint d) is g) = gridDims g"
  by (induction "is" arbitrary: g) simp_all

lemma pointKey_insertPoint [simp]: "pointKey (insertPoint d i g) p = pointKey g p"
  by (rule pointKey_frame) simp_all

lemma pointKey_fold_insertPoint [simp]: "pointKey (fold (insertPoint d) is g) p = pointKey g p"
  by (rule pointKey_frame) simp_all

lemma count_at_fold_insertPoint:
  "count_at (cells (fold (insertPoint d) is g)) k
   = count_at (cells g) k + length (filter (\<lambda>i. pointKey g (point_at (positions d) i) = k) is)"
  by (induction "is" arbitrary: g) (simp_all add: count_at_insertPoint)

lemma keys_insertPoint:
  "fst ` set (cells (insertPoint d i g)) = insert (pointKey g (point_at (positions d) i)) (fst ` set (cells g))"
proof -
  have "fst ` set (AList.update k v al) = insert k (fst ` set al)" for k v and al :: "(cell_key \<times> cell) list"
    using dom_update [of k v al] by (simp add: dom_map_of_conv_image_fst)
  then show ?thesis by (simp add: insertPoint_def Let_def)
qed

lemma keys_fold_insertPoint:
  "fst ` set (cells (fold (insertPoint d) is g))
   = (\<lambda>i. pointKey g (point_at (positions d) i)) ` set is \<union> fst ` set (cells g)"
  by (induction "is" arbitrary: g) (auto simp: keys_insertPoint)

lemma distinct_insertPoint:
  "distinct (map fst (cells g)) \<Longrightarrow> distinct (map fst (cells (insertPoint d i g)))"
  by (simp add: insertPoint_def Let_def distinct_update)

lemma distinct_fold_insertPoint:
  "distinct (map fst (cells g)) \<Longrightarrow> distinct (map fst (cells (fold (insertPoint d) is g)))"
  by (induction "is" arbitrary: g) (simp_all add: distinct_insertPoint)

lemma count_at_member:
  "distinct (map fst al) \<Longrightarrow> (k, c) \<in> set al \<Longrightarrow> count_at al k = count_c c"
  by (simp add: count_at_def)

lemma pointKey_in_dims: "dims_positive (gridDims g) \<Longrightarrow> key_in_dims (gridDims g) (pointKey g p)"
  by (cases p; cases "gridMin g"; cases "gridDims g")
     (auto simp: pointKey_def key_in_dims_def dims_positive_def Let_def)

lemma dims_positive_computeGridDimensions: "dims_positive (gridDims (computeGridDimensions g))"
  by (cases "gridMin g"; cases "gridMax g")
     (auto simp: computeGridDimensions_def dims_positive_def Let_def)

subsection \<open>What a build leaves unchanged\<close>

lemma build_eq: "SpatialGrid_build g d = (finalizeCells (inserted g d))\<lparr>built := True, totalPoints := count d\<rparr>"
  by (simp add: SpatialGrid_build_def inserted_def Let_def)

lemma finalizeCells_frame [simp]:
  "cellSize (finalizeCells g) = cellSize g"
  "gridMin (finalizeCells g) = gridMin g"
  "gridMax (finalizeCells g) = gridMax g"
  "gridDims (finalizeCells g) = gridDims g"
  "map fst (cells (finalizeCells g)) = map fst (cells g)"
  by (simp_all add: finalizeCells_def comp_def)

lemma build_frame:
  "cellSize (SpatialGrid_build g d) = cellSize (inserted g d)"
  "gridMin (SpatialGrid_build g d) = gridMin (inserted g d)"
  "gridMax (SpatialGrid_build g d) = gridMax (inserted g d)"
  "gridDims (SpatialGrid_build g d) = gridDims (inserted g d)"
  "map fst (cells (SpatialGrid_build g d)) = map fst (cells (inserted g d))"
  by (simp_all add: build_eq)

lemma cells_build:
  "cells (SpatialGrid_build g d) = map (\<lambda>kc. (fst kc, finalizeCell (snd kc))) (cells (inserted g d))"
  by (simp add: build_eq finalizeCells_def)

lemma computeGridDimensions_frame [simp]:
  "cellSize (computeGridDimensions g) = cellSize g"
  "gridMin (computeGridDimensions g) = gridMin g"
  "gridMax (computeGridDimensions g) = gridMax g"
proof -
  obtain a b c a' b' c' where "gridMin g = (a, b, c)" "gridMax g = (a', b', c')"
    by (metis prod_cases3)
  then show "cellSize (computeGridDimensions g) = cellSize g"
    "gridMin (computeGridDimensions g) = gridMin g"
    "gridMax (computeGridDimensions g) = gridMax g"
    by (simp_all add: computeGridDimensions_def Let_def)
qed

lemma computeBounds_frame [simp]:
  "cellSize (computeBounds g ps n) = cellSize g"
  "gridDims (computeBounds g ps n) = gridDims g"
proof -
  obtain a b c a' b' c' where
    "fold (bounds_step ps) [0..<n] (point_at ps 0, point_at ps 0) = ((a, b, c), (a', b', c'))"
    by (metis prod_cases3)
  then show "cellSize (computeBounds g ps n) = cellSize g"
    "gridDims (computeBounds g ps n) = gridDims g"
    by (simp_all add: computeBounds_def Let_def)
qed

lemma inserted_frame:
  "cellSize (inserted g d) = cellSize g"
  "gridDims (inserted g d) = gridDims (computeGridDimensions (computeBounds g (positions d) (count d)))"
  "gridMin (inserted g d) = gridMin (computeBounds g (positions d) (count d))"
  "gridMax (inserted g d) = gridMax (computeBounds g (positions d) (count d))"
  by (simp_all add: inserted_def insertPoints_def)

lemma dims_positive_build: "dims_positive (gridDims (SpatialGrid_build g d))"
  by (simp add: build_frame inserted_frame dims_positive_computeGridDimensions)

lemma pointKey_build: "pointKey (SpatialGrid_build g d) p = pointKey (computeGridDimensions (computeBounds g (positions d) (count d))) p"
  by (rule pointKey_frame) (simp_all add: build_frame inserted_def insertPoints_def)

subsection \<open>The cells of a grid built from new\<close>

lemma count_at_finalize:
  "count_at (map (\<lambda>kc. (fst kc, finalizeCell (snd kc))) al) k = count_at al k"
  by (induction al) (auto simp: count_at_def)

lemma count_at_build_new:
  "count_at (cells (SpatialGrid_build (SpatialGrid_new cs) d)) k
   = length (filter (\<lambda>i. pointKey (SpatialGrid_build (SpatialGrid_new cs) d) (point_at (positions d) i) = k) [0..<count d])"
proof -
  have "count_at (cells (computeGridDimensions (computeBounds (SpatialGrid_new cs) (positions d) (count d)))) k = 0"
    by (simp add: count_at_def SpatialGrid_new_def)
  then show ?thesis
    by (simp add: cells_build count_at_finalize inserted_def insertPoints_def
        count_at_fold_insertPoint pointKey_build)
qed

lemma distinct_keys_build_new: "distinct (map fst (cells (SpatialGrid_build (SpatialGrid_new cs) d)))"
proof -
  have "distinct (map fst (cells (inserted (SpatialGrid_new cs) d)))"
    unfolding inserted_def insertPoints_def
    by (rule distinct_fold_insertPoint) (simp add: SpatialGrid_new_def)
  then show ?thesis by (simp add: build_frame)
qed

lemma keys_build_new:
  "fst ` set (cells (SpatialGrid_build (SpatialGrid_new cs) d))
   = (\<lambda>i. pointKey (SpatialGrid_build (SpatialGrid_new cs) d) (point_at (positions d) i)) ` {0..<count d}"
proof -
  have "fst ` set (cells (SpatialGrid_build (SpatialGrid_new cs) d)) = set (map fst (cells (SpatialGrid_build (SpatialGrid_new cs) d)))"
    by simp
  also have "\<dots> = fst ` set (cells (inserted (SpatialGrid_new cs) d))"
    by (simp add: build_frame)
  finally show ?thesis
    by (simp add: inserted_def insertPoints_def keys_fold_insertPoint pointKey_build)
       (simp add: SpatialGrid_new_def)
qed

lemma populated_eq_cells_build_new:
  "populated (SpatialGrid_build (SpatialGrid_new cs) d) = cells (SpatialGrid_build (SpatialGrid_new cs) d)"
proof -
  let ?g = "SpatialGrid_build (SpatialGrid_new cs) d"
  have "count_c c \<noteq> 0" if "(k, c) \<in> set (cells ?g)" for k c
  proof -
    have "k \<in> fst ` set (cells ?g)" using that by force
    then obtain i where i: "i < count d" "pointKey ?g (point_at (positions d) i) = k"
      by (auto simp: keys_build_new)
    then have "i \<in> set (filter (\<lambda>i. pointKey ?g (point_at (positions d) i) = k) [0..<count d])"
      by simp
    then have "0 < length (filter (\<lambda>i. pointKey ?g (point_at (positions d) i) = k) [0..<count d])"
      by (rule length_pos_if_in_set)
    then have "0 < count_at (cells ?g) k" by (simp add: count_at_build_new)
    then show ?thesis using count_at_member [OF distinct_keys_build_new that] by simp
  qed
  then show ?thesis by (auto simp: populated_def filter_id_conv)
qed
lemma length_filter_upt_card: "length (filter P [0..<n]) = card {i. i < n \<and> P i}"
proof -
  have "length (filter P [0..<n]) = card (set (filter P [0..<n]))"
    by (rule distinct_card [symmetric]) simp
  also have "set (filter P [0..<n]) = {i. i < n \<and> P i}" by auto
  finally show ?thesis .
qed

text \<open>
  Scenario A of the specification: four points at one location with species 1, 1, 2, 3
  fall into one cell of count 4, species histogram [0,2,1,1,0,0,0,0] and dominant species 1.
\<close>

lemma scenario_A:
  "map (\<lambda>kc. (count_c (snd kc), speciesHistogram (snd kc), dominantSpecies (snd kc)))
     (populated (SpatialGrid_build (SpatialGrid_new 1) psScenarioA))
   = [(4, [0, 2, 1, 1, 0, 0, 0, 0], 1)]"
  by code_simp

text \<open>
  Claim C1: for a point set satisfying the data-model invariant, after \<^verbatim>\<open>SpatialGrid.build\<close>
  on a new grid the counts of the populated cells add up to the number of points. Every
  point is in exactly one cell: the cell keys are distinct, the key of every point is
  clamped into the grid dimensions and names a populated cell, and the count of a cell is
  the number of points with its key.
\<close>

theorem build_partition:
  assumes "valid_data d" and "0 < cs"
  shows "sum_list (map (\<lambda>kc. count_c (snd kc)) (populated (SpatialGrid_build (SpatialGrid_new cs) d))) = count d
    \<and> distinct (map fst (populated (SpatialGrid_build (SpatialGrid_new cs) d)))
    \<and> (\<forall>i < count d.
          key_in_dims (gridDims (SpatialGrid_build (SpatialGrid_new cs) d))
            (pointKey (SpatialGrid_build (SpatialGrid_new cs) d) (point_at (positions d) i))
          \<and> pointKey (SpatialGrid_build (SpatialGrid_new cs) d) (point_at (positions d) i)
              \<in> fst ` set (populated (SpatialGrid_build (SpatialGrid_new cs) d)))
    \<and> (\<forall>kc \<in> set (populated (SpatialGrid_build (SpatialGrid_new cs) d)).
          count_c (snd kc)
          = card {i. i < count d \<and> pointKey (SpatialGrid_build (SpatialGrid_new cs) d) (point_at (positions d) i) = fst kc})"
proof -
  let ?g = "SpatialGrid_build (SpatialGrid_new cs) d"
  have pop: "populated ?g = cells ?g" by (rule populated_eq_cells_build_new)
  have 1: "sum_list (map (\<lambda>kc. count_c (snd kc)) (populated ?g)) = count d"
    using total_count_build [of "SpatialGrid_new cs" d]
    by (simp add: total_count_def) (simp add: SpatialGrid_new_def)
  have 2: "distinct (map fst (populated ?g))"
    unfolding pop by (rule distinct_keys_build_new)
  have 3: "key_in_dims (gridDims ?g) (pointKey ?g (point_at (positions d) i))
           \<and> pointKey ?g (point_at (positions d) i) \<in> fst ` set (populated ?g)"
    if "i < count d" for i
    using that pointKey_in_dims [OF dims_positive_build] by (simp add: pop keys_build_new)
  have 4: "count_c (snd kc) = card {i. i < count d \<and> pointKey ?g (point_at (positions d) i) = fst kc}"
    if "kc \<in> set (populated ?g)" for kc
  proof -
    have "(fst kc, snd kc) \<in> set (cells ?g)" using that by (simp add: pop)
    then have "count_c (snd kc) = count_at (cells ?g) (fst kc)"
      using count_at_member [OF distinct_keys_build_new, of "fst kc" "snd kc" cs d] by simp
    also have "\<dots> = length (filter (\<lambda>i. pointKey ?g (point_at (positions d) i) = fst kc) [0..<count d])"
      by (rule count_at_build_new)
    also have "\<dots> = card {i. i < count d \<and> pointKey ?g (point_at (positions d) i) = fst kc}"
      by (rule length_filter_upt_card)
    finally show ?thesis .
  qed
  show ?thesis using 1 2 3 4 by blast
qed

lemma valid_data_psA: "valid_data psA"
  by (simp add: valid_data_def psA_def valid_species_def valid_unit_def)

theorem build_partition_witness:
  "valid_data psA \<and> (0::real) < 1 / 2
   \<and> sum_list (map (\<lambda>kc. count_c (snd kc)) (populated (SpatialGrid_build (SpatialGrid_new (1 / 2)) psA))) = count psA
   \<and> distinct (map fst (populated (SpatialGrid_build (SpatialGrid_new (1 / 2)) psA)))"
  using build_partition [OF valid_data_psA, of "1 / 2"] by (simp add: valid_data_psA)

subsection \<open>The histograms of the cells\<close>

lemma hsum_replicate_0 [simp]: "hsum (replicate n 0) = 0"
  by (induction n) (simp_all add: hsum_def)

lemma length_hist_incr [simp]: "length (hist_incr h k) = length h"
  by (simp add: hist_incr_def)

lemma unat_le_hsum: "i < length h \<Longrightarrow> unat (h ! i) \<le> hsum h"
  using member_le_sum_list [of "unat (h ! i)" "map unat h"] by (simp add: hsum_def)

lemma hsum_hist_incr:
  assumes "0 \<le> k" and "k < int (length h)" and "hsum h < 2 ^ 32 - 1"
  shows "hsum (hist_incr h k) = hsum h + 1"
proof -
  define i where "i = nat k"
  have i: "i < length h" using assms(1,2) by (simp add: i_def)
  have "unat (h ! i) \<le> hsum h" using i by (rule unat_le_hsum)
  then have "unat (h ! i) + unat (1 :: 32 word) < 2 ^ LENGTH(32)"
    using assms(3) by simp
  then have u: "unat (h ! i + 1) = unat (h ! i) + 1"
    by (simp add: unat_add_lem [THEN iffD1])
  have "hsum (h[i := h ! i + 1]) = sum_list ((map unat h)[i := unat (h ! i) + 1])"
    by (simp add: hsum_def map_update u)
  also have "\<dots> = sum_list (map unat h) + (unat (h ! i) + 1) - map unat h ! i"
    using i by (simp add: sum_list_update)
  also have "\<dots> = hsum h + 1"
    using i by (simp add: hsum_def)
  finally show ?thesis
    using assms(1,2) by (simp add: hist_incr_def i_def)
qed

lemma hist_ok_createCell: "hist_ok n (createCell g key)"
  by (cases key; cases "gridMin g") (simp add: hist_ok_def createCell_def)

lemma valid_species_index: "valid_species s \<Longrightarrow> 0 \<le> \<lfloor>s\<rfloor> \<and> \<lfloor>s\<rfloor> < 8"
  unfolding valid_species_def by linarith

lemma valid_unit_bucket: "valid_unit t \<Longrightarrow> 0 \<le> min 9 \<lfloor>t * 10\<rfloor> \<and> min 9 \<lfloor>t * 10\<rfloor> < 10"
  unfolding valid_unit_def by (simp add: min_def)

lemma hist_ok_addPoint:
  assumes "hist_ok n c" and "n < 2 ^ 32 - 1" and "valid_species s" and "valid_unit t"
  shows "hist_ok (Suc n) (addPoint c p s t)"
proof -
  obtain x y z where p: "p = (x, y, z)" by (cases p) auto
  have c: "length (speciesHistogram c) = 8" "length (timeHistogram c) = 10"
    "hsum (speciesHistogram c) = count_c c" "hsum (timeHistogram c) = count_c c" "count_c c \<le> n"
    using assms(1) by (simp_all add: hist_ok_def)
  have s: "hsum (hist_incr (speciesHistogram c) \<lfloor>s\<rfloor>) = hsum (speciesHistogram c) + 1"
    by (rule hsum_hist_incr) (use c assms(2) valid_species_index [OF assms(3)] in simp_all)
  have t: "hsum (hist_incr (timeHistogram c) (min 9 \<lfloor>t * 10\<rfloor>)) = hsum (timeHistogram c) + 1"
    by (rule hsum_hist_incr) (use c assms(2) valid_unit_bucket [OF assms(4)] in simp_all)
  show ?thesis
    using c s t by (simp add: hist_ok_def addPoint_def p)
qed

lemma hist_ok_mono: "hist_ok n c \<Longrightarrow> n \<le> m \<Longrightarrow> hist_ok m c"
  by (simp add: hist_ok_def)

text \<open>An invariant of the cells, indexed by the number of points inserted so far.\<close>

lemma set_update_subset: "set (AList.update k v al) \<subseteq> insert (k, v) (set al)"
  by (induction al) auto

lemma cells_inv_fold_insertPoint:
  assumes init: "\<forall>kc \<in> set (cells g). P n0 (snd kc)"
    and create: "\<And>g' key n. P n (createCell g' key)"
    and step: "\<And>c i n. i \<in> set is \<Longrightarrow> n < n0 + length is \<Longrightarrow> P n c
                 \<Longrightarrow> P (Suc n) (addPoint c (point_at (positions d) i) (species d ! i) (times_arr d ! i))"
    and weaken: "\<And>c n. P n c \<Longrightarrow> P (Suc n) c"
  shows "\<forall>kc \<in> set (cells (fold (insertPoint d) is g)). P (n0 + length is) (snd kc)"
  using init step
proof (induction "is" arbitrary: g n0)
  case Nil
  then show ?case by simp
next
  case (Cons i "is")
  define key where "key = pointKey g (point_at (positions d) i)"
  define c where "c = (case map_of (cells g) key of None \<Rightarrow> createCell g key | Some c \<Rightarrow> c)"
  define c' where "c' = addPoint c (point_at (positions d) i) (species d ! i) (times_arr d ! i)"
  have cells': "cells (insertPoint d i g) = AList.update key c' (cells g)"
    unfolding insertPoint_def Let_def key_def c_def c'_def by simp
  have "P n0 c"
  proof (cases "map_of (cells g) key")
    case None
    then show ?thesis by (simp add: c_def create)
  next
    case (Some a)
    then have "(key, a) \<in> set (cells g)" by (rule map_of_SomeD)
    then show ?thesis using Cons.prems(1) Some by (auto simp: c_def)
  qed
  then have "P (Suc n0) c'"
    unfolding c'_def by (intro Cons.prems(2)) simp_all
  then have "\<forall>kc \<in> set (cells (insertPoint d i g)). P (Suc n0) (snd kc)"
    using set_update_subset [of key c' "cells g"] Cons.prems(1) weaken
    unfolding cells' by fastforce
  then have "\<forall>kc \<in> set (cells (fold (insertPoint d) is (insertPoint d i g))). P (Suc n0 + length is) (snd kc)"
    by (rule Cons.IH) (use Cons.prems(2) in simp_all)
  then show ?case by simp
qed

lemma valid_data_nth:
  assumes "valid_data d" and "i < count d"
  shows "valid_species (species d ! i)" and "valid_unit (times_arr d ! i)"
  using assms by (simp_all add: valid_data_def list_all_length)

lemma hist_ok_inserted:
  assumes "valid_data d" and "count d < 2 ^ 32"
  shows "\<forall>kc \<in> set (cells (inserted (SpatialGrid_new cs) d)). hist_ok (count d) (snd kc)"
proof -
  let ?g = "computeGridDimensions (computeBounds (SpatialGrid_new cs) (positions d) (count d))"
  have "\<forall>kc \<in> set (cells (fold (insertPoint d) [0..<count d] ?g)). hist_ok (0 + length [0..<count d]) (snd kc)"
  proof (rule cells_inv_fold_insertPoint)
    show "\<forall>kc \<in> set (cells ?g). hist_ok 0 (snd kc)"
      by (simp add: SpatialGrid_new_def)
    show "hist_ok n (createCell g' key)" for g' key n
      by (rule hist_ok_createCell)
    show "hist_ok (Suc n) (addPoint c (point_at (positions d) i) (species d ! i) (times_arr d ! i))"
      if "i \<in> set [0..<count d]" "n < 0 + length [0..<count d]" "hist_ok n c" for c i n
      by (rule hist_ok_addPoint)
         (use that assms valid_data_nth [OF assms(1), of i] in simp_all)
    show "hist_ok (Suc n) c" if "hist_ok n c" for c n
      using that by (rule hist_ok_mono) simp
  qed
  then show ?thesis by (simp add: inserted_def insertPoints_def)
qed

lemma hist_finalizeCell [simp]:
  "speciesHistogram (finalizeCell c) = speciesHistogram c"
  "timeHistogram (finalizeCell c) = timeHistogram c"
  by (simp_all add: finalizeCell_def)

lemma hist_ok_build:
  assumes "valid_data d" and "count d < 2 ^ 32"
  shows "\<forall>kc \<in> set (cells (SpatialGrid_build (SpatialGrid_new cs) d)). hist_ok (count d) (snd kc)"
  using hist_ok_inserted [OF assms, of cs] by (auto simp: cells_build hist_ok_def)

subsection \<open>The histograms of a query result\<close>

lemma hsum_update_add:
  assumes "i < length h" and "unat (h ! i) + unat w < 2 ^ 32"
  shows "hsum (h[i := h ! i + w]) = hsum h + unat w"
proof -
  have "unat (h ! i) + unat w < 2 ^ LENGTH(32)" using assms(2) by simp
  then have u: "unat (h ! i + w) = unat (h ! i) + unat w"
    by (simp add: unat_add_lem [THEN iffD1])
  have "hsum (h[i := h ! i + w]) = sum_list ((map unat h)[i := unat (h ! i) + unat w])"
    by (simp add: hsum_def map_update u)
  also have "\<dots> = sum_list (map unat h) + (unat (h ! i) + unat w) - map unat h ! i"
    using assms(1) by (simp add: sum_list_update)
  also have "\<dots> = hsum h + unat w"
    using assms(1) by (simp add: hsum_def)
  finally show ?thesis .
qed

lemma hsum_take_le: "hsum (take m h) \<le> hsum h"
proof -
  have "hsum h = hsum (take m h) + hsum (drop m h)"
    unfolding hsum_def by (metis append_take_drop_id map_append sum_list_append)
  then show ?thesis by simp
qed

lemma hsum_take_Suc: "m < length h \<Longrightarrow> hsum (take (Suc m) h) = hsum (take m h) + unat (h ! m)"
  by (simp add: hsum_def take_Suc_conv_app_nth)

lemma fold_add_hist:
  assumes "m \<le> length rh" and "m \<le> length ch" and "hsum rh + hsum ch < 2 ^ 32"
  shows "length (fold (\<lambda>s h. h[s := h ! s + ch ! s]) [0..<m] rh) = length rh
    \<and> (\<forall>i. m \<le> i \<longrightarrow> i < length rh \<longrightarrow> fold (\<lambda>s h. h[s := h ! s + ch ! s]) [0..<m] rh ! i = rh ! i)
    \<and> hsum (fold (\<lambda>s h. h[s := h ! s + ch ! s]) [0..<m] rh) = hsum rh + hsum (take m ch)"
  using assms(1,2)
proof (induction m)
  case 0
  then show ?case by (simp add: hsum_def)
next
  case (Suc m)
  let ?X = "fold (\<lambda>s h. h[s := h ! s + ch ! s]) [0..<m] rh"
  have IH: "length ?X = length rh" "?X ! m = rh ! m" "hsum ?X = hsum rh + hsum (take m ch)"
    using Suc by simp_all
  have rest: "?X ! i = rh ! i" if "m \<le> i" "i < length rh" for i
    using Suc that by simp
  have m: "m < length rh" "m < length ch" using Suc.prems by simp_all
  have "unat (rh ! m) \<le> hsum rh" "unat (ch ! m) \<le> hsum ch"
    using m by (simp_all add: unat_le_hsum)
  then have small: "unat (?X ! m) + unat (ch ! m) < 2 ^ 32"
    using assms(3) IH(2) by simp
  have "hsum (?X[m := ?X ! m + ch ! m]) = hsum ?X + unat (ch ! m)"
    by (rule hsum_update_add) (use m IH small in simp_all)
  then have "hsum (?X[m := ?X ! m + ch ! m]) = hsum rh + hsum (take (Suc m) ch)"
    using IH(3) m by (simp add: hsum_take_Suc)
  then show ?case
    using IH(1) rest by simp
qed

lemma hsum_add_hist:
  assumes "length rh = n" and "length ch = n" and "hsum rh + hsum ch < 2 ^ 32"
  shows "length (add_hist n rh ch) = n \<and> hsum (add_hist n rh ch) = hsum rh + hsum ch"
  using fold_add_hist [of n rh ch] assms by (simp add: add_hist_def)

lemma visitCell_cases:
  "visitCell g center radiusSq key r = r
   \<or> (\<exists>c. map_of (cells g) key = Some c
        \<and> visitCell g center radiusSq key r
            = r\<lparr>cellsQueried := cellsQueried r + 1,
                totalCount := totalCount r + count_c c,
                speciesHistogram_r := add_hist 8 (speciesHistogram_r r) (speciesHistogram c),
                timeHistogram_r := add_hist 10 (timeHistogram_r r) (timeHistogram c),
                minTime := js_min_opt (minTime r) (avgTime c),
                maxTime := js_max_opt (maxTime r) (avgTime c)\<rparr>)"
  by (auto simp: visitCell_def Let_def split: option.splits prod.splits)

lemma count_at_Some: "map_of al k = Some c \<Longrightarrow> count_at al k = count_c c"
  by (simp add: count_at_def)

lemma visitCell_result_ok:
  assumes "result_ok r"
    and "\<forall>kc \<in> set (cells g). hist_ok N (snd kc)"
    and "totalCount r + count_at (cells g) key < 2 ^ 32"
  shows "result_ok (visitCell g center radiusSq key r)
    \<and> totalCount (visitCell g center radiusSq key r) \<le> totalCount r + count_at (cells g) key"
proof -
  consider (skip) "visitCell g center radiusSq key r = r"
    | (add) c where "map_of (cells g) key = Some c"
        "visitCell g center radiusSq key r
            = r\<lparr>cellsQueried := cellsQueried r + 1,
                totalCount := totalCount r + count_c c,
                speciesHistogram_r := add_hist 8 (speciesHistogram_r r) (speciesHistogram c),
                timeHistogram_r := add_hist 10 (timeHistogram_r r) (timeHistogram c),
                minTime := js_min_opt (minTime r) (avgTime c),
                maxTime := js_max_opt (maxTime r) (avgTime c)\<rparr>"
    using visitCell_cases [of g center radiusSq key r] by blast
  then show ?thesis
  proof cases
    case skip
    then show ?thesis using assms(1) by simp
  next
    case add
    have "(key, c) \<in> set (cells g)" using add(1) by (rule map_of_SomeD)
    then have c: "hist_ok N c" using assms(2) by force
    have cnt: "count_at (cells g) key = count_c c" using add(1) by (rule count_at_Some)
    have r: "length (speciesHistogram_r r) = 8" "length (timeHistogram_r r) = 10"
      "hsum (speciesHistogram_r r) = totalCount r" "hsum (timeHistogram_r r) = totalCount r"
      using assms(1) by (simp_all add: result_ok_def)
    have hc: "length (speciesHistogram c) = 8" "length (timeHistogram c) = 10"
      "hsum (speciesHistogram c) = count_c c" "hsum (timeHistogram c) = count_c c"
      using c by (simp_all add: hist_ok_def)
    have s: "length (add_hist 8 (speciesHistogram_r r) (speciesHistogram c)) = 8
       \<and> hsum (add_hist 8 (speciesHistogram_r r) (speciesHistogram c))
           = hsum (speciesHistogram_r r) + hsum (speciesHistogram c)"
      by (rule hsum_add_hist) (use r hc assms(3) cnt in simp_all)
    have t: "length (add_hist 10 (timeHistogram_r r) (timeHistogram c)) = 10
       \<and> hsum (add_hist 10 (timeHistogram_r r) (timeHistogram c))
           = hsum (timeHistogram_r r) + hsum (timeHistogram c)"
      by (rule hsum_add_hist) (use r hc assms(3) cnt in simp_all)
    show ?thesis
      using s t r hc cnt by (simp add: add(2) result_ok_def)
  qed
qed

lemma fold_visitCell_result_ok:
  assumes "result_ok r"
    and "\<forall>kc \<in> set (cells g). hist_ok N (snd kc)"
    and "totalCount r + sum_list (map (count_at (cells g)) ks) < 2 ^ 32"
  shows "result_ok (fold (visitCell g center radiusSq) ks r)"
  using assms(1,3)
proof (induction ks arbitrary: r)
  case Nil
  then show ?case by simp
next
  case (Cons k ks)
  have "totalCount r + count_at (cells g) k < 2 ^ 32"
    using Cons.prems(2) by simp
  then have v: "result_ok (visitCell g center radiusSq k r)"
    "totalCount (visitCell g center radiusSq k r) \<le> totalCount r + count_at (cells g) k"
    using visitCell_result_ok [OF Cons.prems(1) assms(2), of k center radiusSq] by simp_all
  have "result_ok (fold (visitCell g center radiusSq) ks (visitCell g center radiusSq k r))"
    by (rule Cons.IH) (use v Cons.prems(2) in simp_all)
  then show ?case by simp
qed

lemma sum_count_at_le_total:
  assumes "distinct ks" and "distinct (map fst al)"
  shows "sum_list (map (count_at al) ks) \<le> total_count al"
proof -
  let ?K = "fst ` set al"
  have inj: "inj_on fst (set al)" and dal: "distinct al"
    using assms(2) by (simp_all add: distinct_map)
  have zero: "count_at al k = 0" if "k \<notin> ?K" for k
  proof -
    have "map_of al k = None" using that by (simp add: map_of_eq_None_iff)
    then show ?thesis by (simp add: count_at_def)
  qed
  have "sum_list (map (count_at al) ks) = sum (count_at al) (set ks)"
    using assms(1) by (rule sum_list_distinct_conv_sum_set)
  also have "\<dots> = sum (count_at al) (set ks \<inter> ?K)"
    by (rule sum.mono_neutral_right) (auto simp: zero)
  also have "\<dots> \<le> sum (count_at al) ?K"
    by (rule sum_mono2) auto
  also have "\<dots> = sum (\<lambda>kc. count_at al (fst kc)) (set al)"
    using inj by (simp add: sum.reindex comp_def)
  also have "\<dots> = sum (\<lambda>kc. count_c (snd kc)) (set al)"
    by (rule sum.cong) (use assms(2) in \<open>auto simp: count_at_def\<close>)
  also have "\<dots> = total_count al"
    unfolding total_count_def using dal by (simp add: sum_list_distinct_conv_sum_set)
  finally show ?thesis .
qed

lemma distinct_concat_map:
  assumes "distinct xs" and "\<And>x. x \<in> set xs \<Longrightarrow> distinct (f x)"
    and "\<And>x y. x \<in> set xs \<Longrightarrow> y \<in> set xs \<Longrightarrow> x \<noteq> y \<Longrightarrow> set (f x) \<inter> set (f y) = {}"
  shows "distinct (concat (map f xs))"
  using assms
proof (induction xs)
  case Nil
  then show ?case by simp
next
  case (Cons x xs)
  have "distinct (concat (map f xs))"
    by (rule Cons.IH) (use Cons.prems in auto)
  moreover have "set (f x) \<inter> set (f y) = {}" if "y \<in> set xs" for y
    using Cons.prems(1) that by (intro Cons.prems(3)) auto
  ultimately show ?case using Cons.prems(2) by auto
qed

lemma distinct_key_box:
  "distinct (concat (map (\<lambda>kx. concat (map (\<lambda>ky. map (\<lambda>kz. (kx, ky, kz)) [c..d]) [a..b])) [e..f]))"
  for a b c d e f :: int
proof (rule distinct_concat_map)
  show "distinct [e..f]" by simp
  show "distinct (concat (map (\<lambda>ky. map (\<lambda>kz. (kx, ky, kz)) [c..d]) [a..b]))" for kx :: int
    by (rule distinct_concat_map) (auto simp: distinct_map inj_on_def)
  show "set (concat (map (\<lambda>ky. map (\<lambda>kz. (x, ky, kz)) [c..d]) [a..b]))
        \<inter> set (concat (map (\<lambda>ky. map (\<lambda>kz. (y, ky, kz)) [c..d]) [a..b])) = {}"
    if "x \<noteq> y" for x y :: int
    using that by auto
qed

lemma distinct_query_keys: "distinct (query_keys g center radius)"
  by (cases center; cases "gridMin g"; cases "gridDims g")
     (simp add: query_keys_def Let_def distinct_key_box)

lemma total_count_cells_build:
  "total_count (cells (SpatialGrid_build g d)) = total_count (cells g) + count d"
  using total_count_build [of g d] by (simp add: total_count_populated)

lemma built_build [simp]: "built (SpatialGrid_build g d)"
  by (simp add: build_eq)

lemma result_ok_build_query:
  assumes "valid_data d" and "count d < 2 ^ 32"
  shows "result_ok (querySphere (SpatialGrid_build (SpatialGrid_new cs) d) center radius)"
proof -
  let ?g = "SpatialGrid_build (SpatialGrid_new cs) d"
  let ?init = "\<lparr>totalCount = 0, speciesHistogram_r = replicate 8 0,
                  timeHistogram_r = replicate 10 0, cellsQueried = 0,
                  minTime = Some (Num 1), maxTime = Some (Num 0),
                  dominantSpecies_r = 0, timeSpan = (Num 0, Num 0)\<rparr>"
  let ?r = "fold (visitCell ?g center (radius * radius)) (query_keys ?g center radius) ?init"
  have init: "result_ok ?init" by (simp add: result_ok_def)
  have "sum_list (map (count_at (cells ?g)) (query_keys ?g center radius)) \<le> total_count (cells ?g)"
    by (rule sum_count_at_le_total) (simp_all add: distinct_query_keys distinct_keys_build_new)
  also have "\<dots> = count d"
    by (simp add: total_count_cells_build) (simp add: SpatialGrid_new_def total_count_def)
  finally have small: "totalCount ?init + sum_list (map (count_at (cells ?g)) (query_keys ?g center radius)) < 2 ^ 32"
    using assms(2) by simp
  have "result_ok ?r"
    using init hist_ok_build [OF assms] small by (rule fold_visitCell_result_ok)
  then show ?thesis
    by (simp add: querySphere_def Let_def result_ok_def)
qed

text \<open>
  Claim C10: for a grid that is unbuilt, or built (from new) on a point set satisfying the
  data-model invariant, the eight entries of \<^verbatim>\<open>speciesHistogram\<close> of any sphere query add up
  to \<^verbatim>\<open>totalCount\<close>, and so do the ten entries of \<^verbatim>\<open>timeHistogram\<close>. The entries are
  32-bit: the point set has fewer than \<open>2^32\<close> points, so that no entry wraps around.
\<close>

theorem querySphere_histograms_sum:
  assumes "g = SpatialGrid_new cs
           \<or> (g = SpatialGrid_build (SpatialGrid_new cs) d \<and> valid_data d \<and> 0 < cs \<and> count d < 2 ^ 32)"
  shows "length (speciesHistogram_r (querySphere g center radius)) = 8
    \<and> sum_list (map unat (speciesHistogram_r (querySphere g center radius)))
        = totalCount (querySphere g center radius)
    \<and> length (timeHistogram_r (querySphere g center radius)) = 10
    \<and> sum_list (map unat (timeHistogram_r (querySphere g center radius)))
        = totalCount (querySphere g center radius)"
proof -
  have "result_ok (querySphere g center radius)"
    using assms
  proof
    assume "g = SpatialGrid_new cs"
    then show ?thesis
      by (simp add: querySphere_def SpatialGrid_new_def emptyResult_def result_ok_def)
  next
    assume "g = SpatialGrid_build (SpatialGrid_new cs) d \<and> valid_data d \<and> 0 < cs \<and> count d < 2 ^ 32"
    then show ?thesis by (simp add: result_ok_build_query)
  qed
  then show ?thesis by (simp add: result_ok_def hsum_def)
qed

theorem querySphere_histograms_sum_witness:
  "valid_data psA \<and> (0::real) < 1 / 2 \<and> count psA < 2 ^ 32
   \<and> sum_list (map unat (speciesHistogram_r (querySphere (SpatialGrid_build (SpatialGrid_new (1 / 2)) psA) (0, 0, 0) 10)))
       = totalCount (querySphere (SpatialGrid_build (SpatialGrid_new (1 / 2)) psA) (0, 0, 0) 10)
   \<and> sum_list (map unat (timeHistogram_r (querySphere (SpatialGrid_build (SpatialGrid_new (1 / 2)) psA) (0, 0, 0) 10)))
       = totalCount (querySphere (SpatialGrid_build (SpatialGrid_new (1 / 2)) psA) (0, 0, 0) 10)
   \<and> sum_list (map unat (speciesHistogram_r (querySphere (SpatialGrid_new (1 / 2)) (0, 0, 0) 10)))
       = totalCount (querySphere (SpatialGrid_new (1 / 2)) (0, 0, 0) 10)"
proof -
  have c: "count psA < 2 ^ 32" by (simp add: psA_def)
  show ?thesis
    using querySphere_histograms_sum [of "SpatialGrid_build (SpatialGrid_new (1 / 2)) psA" "1 / 2" psA "(0, 0, 0)" 10]
      querySphere_histograms_sum [of "SpatialGrid_new (1 / 2)" "1 / 2" psA "(0, 0, 0)" 10]
      valid_data_psA c
    by simp
qed

subsection \<open>The bounding box and the centroids\<close>

lemma vec_le_refl [simp]: "vec_le a a"
  by (cases a) (simp add: vec_le_def)

lemma vec_le_trans: "vec_le a b \<Longrightarrow> vec_le b c \<Longrightarrow> vec_le a c"
  by (cases a; cases b; cases c) (auto simp: vec_le_def)

lemma bounds_step_props:
  assumes "bounds_step ps i (mn, mx) = (mn', mx')"
  shows "vec_le mn' mn \<and> vec_le mx mx' \<and> vec_le mn' (point_at ps i) \<and> vec_le (point_at ps i) mx'"
  using assms
  by (cases mn; cases mx; cases "point_at ps i") (auto simp: bounds_step_def vec_le_def)

lemma fold_bounds_step:
  assumes "fold (bounds_step ps) is (mn, mx) = (mn', mx')"
  shows "vec_le mn' mn \<and> vec_le mx mx'
         \<and> (\<forall>i \<in> set is. vec_le mn' (point_at ps i) \<and> vec_le (point_at ps i) mx')"
  using assms
proof (induction "is" arbitrary: mn mx)
  case Nil
  then show ?case by simp
next
  case (Cons i "is")
  obtain mn1 mx1 where s: "bounds_step ps i (mn, mx) = (mn1, mx1)"
    by (cases "bounds_step ps i (mn, mx)") auto
  have f: "fold (bounds_step ps) is (mn1, mx1) = (mn', mx')"
    using Cons.prems s by simp
  have IH: "vec_le mn' mn1" "vec_le mx1 mx'"
    "\<forall>i \<in> set is. vec_le mn' (point_at ps i) \<and> vec_le (point_at ps i) mx'"
    using Cons.IH [OF f] by simp_all
  have st: "vec_le mn1 mn" "vec_le mx mx1" "vec_le mn1 (point_at ps i)" "vec_le (point_at ps i) mx1"
    using bounds_step_props [OF s] by simp_all
  show ?case
    using IH st by (auto intro: vec_le_trans)
qed

lemma data_box_contains:
  assumes "i < n"
  shows "in_box (fst (data_box ps n)) (snd (data_box ps n)) (point_at ps i)"
proof -
  obtain mn mx where b: "data_box ps n = (mn, mx)" by (cases "data_box ps n") auto
  then have "fold (bounds_step ps) [0..<n] (point_at ps 0, point_at ps 0) = (mn, mx)"
    by (simp add: data_box_def)
  from fold_bounds_step [OF this] assms show ?thesis
    by (simp add: in_box_def b)
qed

lemma computeBounds_box:
  assumes "n \<noteq> 0"
  shows "gridMin (computeBounds g ps n) = vec_shift (fst (data_box ps n)) (- (cellSize g * (5 / 10)))"
    and "gridMax (computeBounds g ps n) = vec_shift (snd (data_box ps n)) (cellSize g * (5 / 10))"
proof -
  obtain a b c a' b' c' where
    f: "fold (bounds_step ps) [0..<n] (point_at ps 0, point_at ps 0) = ((a, b, c), (a', b', c'))"
    by (metis prod_cases3)
  show "gridMin (computeBounds g ps n) = vec_shift (fst (data_box ps n)) (- (cellSize g * (5 / 10)))"
    using assms f by (simp add: computeBounds_def Let_def data_box_def vec_shift_def)
  show "gridMax (computeBounds g ps n) = vec_shift (snd (data_box ps n)) (cellSize g * (5 / 10))"
    using assms f by (simp add: computeBounds_def Let_def data_box_def vec_shift_def)
qed

lemma computeBounds_empty:
  "gridMin (computeBounds g ps 0) = (0, 0, 0)" "gridMax (computeBounds g ps 0) = (1, 1, 1)"
  by (simp_all add: computeBounds_def)

lemma sum_within_add:
  assumes "sum_within n lo hi acc" and "lo \<le> x" and "x \<le> hi"
  shows "sum_within (Suc n) lo hi (js_add_assign acc x)"
proof -
  obtain s where s: "acc = Some (Num s)" "real n * lo \<le> s" "s \<le> real n * hi"
    using assms(1) by (auto simp: sum_within_def split: option.splits jsnum.splits)
  have "real (Suc n) * lo \<le> s + x" "s + x \<le> real (Suc n) * hi"
    using s assms(2,3) by (simp_all add: algebra_simps)
  then show ?thesis
    by (simp add: s js_add_assign_def sum_within_def)
qed

lemma sums_ok_createCell: "sums_ok box (createCell g key)"
proof -
  obtain lx ly lz hx hy hz where "box = ((lx, ly, lz), (hx, hy, hz))"
    by (metis prod_cases3)
  then show ?thesis
    by (cases key; cases "gridMin g") (simp add: sums_ok_def createCell_def sum_within_def)
qed

lemma sums_ok_addPoint:
  assumes "sums_ok box c" and "in_box (fst box) (snd box) p"
  shows "sums_ok box (addPoint c p s t)"
proof -
  obtain lx ly lz hx hy hz where box: "box = ((lx, ly, lz), (hx, hy, hz))"
    by (metis prod_cases3)
  obtain x y z where p: "p = (x, y, z)" by (cases p) auto
  have b: "lx \<le> x" "x \<le> hx" "ly \<le> y" "y \<le> hy" "lz \<le> z" "z \<le> hz"
    using assms(2) by (simp_all add: in_box_def vec_le_def box p)
  have c: "sum_within (count_c c) lx hx (sumX c)" "sum_within (count_c c) ly hy (sumY c)"
    "sum_within (count_c c) lz hz (sumZ c)"
    using assms(1) by (simp_all add: sums_ok_def box)
  obtain st where st: "sumTime c = Some (Num st)"
    using assms(1) by (auto simp: sums_ok_def box)
  have "sum_within (Suc (count_c c)) lx hx (js_add_assign (sumX c) x)"
    "sum_within (Suc (count_c c)) ly hy (js_add_assign (sumY c) y)"
    "sum_within (Suc (count_c c)) lz hz (js_add_assign (sumZ c) z)"
    using b c by (simp_all add: sum_within_add)
  then show ?thesis
    by (simp add: sums_ok_def box addPoint_def p st js_add_assign_def)
qed

lemma sums_ok_inserted:
  "\<forall>kc \<in> set (cells (inserted (SpatialGrid_new cs) d)).
     sums_ok (data_box (positions d) (count d)) (snd kc)"
proof -
  let ?g = "computeGridDimensions (computeBounds (SpatialGrid_new cs) (positions d) (count d))"
  let ?box = "data_box (positions d) (count d)"
  have "\<forall>kc \<in> set (cells (fold (insertPoint d) [0..<count d] ?g)).
          (\<lambda>n. sums_ok ?box) (0 + length [0..<count d]) (snd kc)"
  proof (rule cells_inv_fold_insertPoint)
    show "\<forall>kc \<in> set (cells ?g). sums_ok ?box (snd kc)"
      by (simp add: SpatialGrid_new_def)
    show "sums_ok ?box (createCell g' key)" for g' key
      by (rule sums_ok_createCell)
    show "sums_ok ?box (addPoint c (point_at (positions d) i) (species d ! i) (times_arr d ! i))"
      if "i \<in> set [0..<count d]" "sums_ok ?box c" for c i
      using that by (intro sums_ok_addPoint data_box_contains) simp_all
    show "sums_ok ?box c" if "sums_ok ?box c" for c
      using that .
  qed
  then show ?thesis by (simp add: inserted_def insertPoints_def)
qed

lemma mean_within:
  assumes "sum_within n lo hi acc" and "n \<noteq> 0"
  shows "\<exists>m. js_div_count acc n = Num m \<and> lo \<le> m \<and> m \<le> hi"
proof -
  obtain s where s: "acc = Some (Num s)" "real n * lo \<le> s" "s \<le> real n * hi"
    using assms(1) by (auto simp: sum_within_def split: option.splits jsnum.splits)
  have "0 < real n" using assms(2) by simp
  then have "lo \<le> s / real n" "s / real n \<le> hi"
    using s by (simp_all add: field_simps)
  then show ?thesis by (simp add: s js_div_count_def)
qed

lemma centroid_finalizeCell:
  assumes "sums_ok box c" and "count_c c \<noteq> 0"
  shows "centroid_in (fst box) (snd box) (finalizeCell c)"
proof -
  obtain lx ly lz hx hy hz where box: "box = ((lx, ly, lz), (hx, hy, hz))"
    by (metis prod_cases3)
  have c: "sum_within (count_c c) lx hx (sumX c)" "sum_within (count_c c) ly hy (sumY c)"
    "sum_within (count_c c) lz hz (sumZ c)"
    using assms(1) by (simp_all add: sums_ok_def box)
  obtain a where a: "js_div_count (sumX c) (count_c c) = Num a" "lx \<le> a" "a \<le> hx"
    using mean_within [OF c(1) assms(2)] by blast
  obtain b where b: "js_div_count (sumY c) (count_c c) = Num b" "ly \<le> b" "b \<le> hy"
    using mean_within [OF c(2) assms(2)] by blast
  obtain c' where c': "js_div_count (sumZ c) (count_c c) = Num c'" "lz \<le> c'" "c' \<le> hz"
    using mean_within [OF c(3) assms(2)] by blast
  show ?thesis
    using assms(2) a b c' by (simp add: centroid_in_def finalizeCell_def box in_box_def vec_le_def)
qed

lemma gridDims_build:
  assumes "gridMin (SpatialGrid_build g0 d) = (mnX, mnY, mnZ)"
    and "gridMax (SpatialGrid_build g0 d) = (mxX, mxY, mxZ)"
  shows "gridDims (SpatialGrid_build g0 d)
         = (max 1 \<lceil>(mxX - mnX) / cellSize g0\<rceil>, max 1 \<lceil>(mxY - mnY) / cellSize g0\<rceil>,
            max 1 \<lceil>(mxZ - mnZ) / cellSize g0\<rceil>)"
proof -
  let ?b = "computeBounds g0 (positions d) (count d)"
  have "gridMin ?b = (mnX, mnY, mnZ)" "gridMax ?b = (mxX, mxY, mxZ)" "cellSize ?b = cellSize g0"
    using assms by (simp_all add: build_frame inserted_frame)
  then have "gridDims (computeGridDimensions ?b)
         = (max 1 \<lceil>(mxX - mnX) / cellSize g0\<rceil>, max 1 \<lceil>(mxY - mnY) / cellSize g0\<rceil>,
            max 1 \<lceil>(mxZ - mnZ) / cellSize g0\<rceil>)"
    by (simp add: computeGridDimensions_def Let_def)
  then show ?thesis by (simp add: build_frame inserted_frame)
qed

lemma cellSize_build: "cellSize (SpatialGrid_build g0 d) = cellSize g0"
  by (simp add: build_frame inserted_frame)

lemma grid_box_build:
  assumes "0 < cellSize g0"
  shows "vec_le (gridMin (SpatialGrid_build g0 d)) (gridMax (SpatialGrid_build g0 d))"
    and "count d \<noteq> 0 \<Longrightarrow> in_box (fst (data_box (positions d) (count d))) (snd (data_box (positions d) (count d))) p
         \<Longrightarrow> in_box (gridMin (SpatialGrid_build g0 d)) (gridMax (SpatialGrid_build g0 d)) p"
proof -
  let ?box = "data_box (positions d) (count d)"
  obtain lx ly lz hx hy hz where box: "?box = ((lx, ly, lz), (hx, hy, hz))"
    by (metis prod_cases3)
  have mm: "gridMin (SpatialGrid_build g0 d) = gridMin (computeBounds g0 (positions d) (count d))"
    "gridMax (SpatialGrid_build g0 d) = gridMax (computeBounds g0 (positions d) (count d))"
    by (simp_all add: build_frame inserted_frame)
  show "vec_le (gridMin (SpatialGrid_build g0 d)) (gridMax (SpatialGrid_build g0 d))"
  proof (cases "count d = 0")
    case True
    then show ?thesis by (simp add: mm computeBounds_empty vec_le_def)
  next
    case False
    then have "in_box (fst ?box) (snd ?box) (point_at (positions d) 0)"
      by (intro data_box_contains) simp
    then have "lx \<le> hx" "ly \<le> hy" "lz \<le> hz"
      by (cases "point_at (positions d) 0"; simp add: box in_box_def vec_le_def)+
    then show ?thesis
      using False assms by (simp add: mm computeBounds_box box vec_shift_def vec_le_def)
  qed
  show "in_box (gridMin (SpatialGrid_build g0 d)) (gridMax (SpatialGrid_build g0 d)) p"
    if "count d \<noteq> 0" "in_box (fst ?box) (snd ?box) p"
    using that assms
    by (cases p) (simp add: mm computeBounds_box box vec_shift_def vec_le_def in_box_def)
qed

lemma centroid_in_grid_build:
  assumes "0 < cs" and "(k, c) \<in> set (cells (SpatialGrid_build (SpatialGrid_new cs) d))"
  shows "count_c c \<noteq> 0
    \<and> centroid_in (gridMin (SpatialGrid_build (SpatialGrid_new cs) d))
         (gridMax (SpatialGrid_build (SpatialGrid_new cs) d)) c"
proof -
  let ?g = "SpatialGrid_build (SpatialGrid_new cs) d"
  let ?box = "data_box (positions d) (count d)"
  have cs: "0 < cellSize (SpatialGrid_new cs)" using assms(1) by (simp add: SpatialGrid_new_def)
  obtain c0 where c0: "(k, c0) \<in> set (cells (inserted (SpatialGrid_new cs) d))" "c = finalizeCell c0"
    using assms(2) by (auto simp: cells_build)
  have pop: "count_c c \<noteq> 0"
  proof -
    have "(k, c) \<in> set (populated ?g)"
      using assms(2) by (simp add: populated_eq_cells_build_new)
    then show ?thesis by (simp add: populated_def)
  qed
  then have n0: "count_c c0 \<noteq> 0" by (simp add: c0(2))
  have nonempty: "count d \<noteq> 0"
  proof
    assume "count d = 0"
    then have "cells (inserted (SpatialGrid_new cs) d) = []"
      by (simp add: inserted_def insertPoints_def SpatialGrid_new_def)
    then show False using c0(1) by simp
  qed
  have "sums_ok ?box c0" using sums_ok_inserted [of cs d] c0(1) by force
  then have "centroid_in (fst ?box) (snd ?box) c"
    unfolding c0(2) using n0 by (rule centroid_finalizeCell)
  then obtain a b c' where abc: "centroid c = Some (Num a, Num b, Num c')"
    "in_box (fst ?box) (snd ?box) (a, b, c')"
    by (auto simp: centroid_in_def)
  have "in_box (gridMin ?g) (gridMax ?g) (a, b, c')"
    using cs nonempty abc(2) by (rule grid_box_build(2))
  then show ?thesis using pop abc(1) by (auto simp: centroid_in_def)
qed

subsection \<open>A sphere that covers the grid\<close>

lemma dist3_le_D:
  assumes "dist3 (px, py, pz) (x, y, z) \<le> radius"
  shows "(px - x) * (px - x) + (py - y) * (py - y) + (pz - z) * (pz - z) \<le> radius * radius"
    and "\<bar>px - x\<bar> \<le> radius" and "\<bar>py - y\<bar> \<le> radius" and "\<bar>pz - z\<bar> \<le> radius"
proof -
  let ?u = "(px - x) * (px - x) + (py - y) * (py - y) + (pz - z) * (pz - z)"
  have s: "sqrt ?u \<le> radius" using assms by (simp add: dist3_def)
  have r: "0 \<le> radius" using s real_sqrt_ge_zero [of ?u] by (smt (verit) zero_le_square add_nonneg_nonneg)
  have "?u \<le> radius\<^sup>2" using s by (rule sqrt_le_D)
  then show u: "?u \<le> radius * radius" by (simp add: power2_eq_square)
  have sq: "0 \<le> (px - x) * (px - x)" "0 \<le> (py - y) * (py - y)" "0 \<le> (pz - z) * (pz - z)"
    by simp_all
  have "(px - x) * (px - x) \<le> radius * radius" "(py - y) * (py - y) \<le> radius * radius"
    "(pz - z) * (pz - z) \<le> radius * radius"
    using u sq by linarith+
  then have "(px - x)\<^sup>2 \<le> radius\<^sup>2" "(py - y)\<^sup>2 \<le> radius\<^sup>2" "(pz - z)\<^sup>2 \<le> radius\<^sup>2"
    by (simp_all add: power2_eq_square)
  then show "\<bar>px - x\<bar> \<le> radius" "\<bar>py - y\<bar> \<le> radius" "\<bar>pz - z\<bar> \<le> radius"
    using r by (simp_all add: abs_le_square_iff [symmetric])
qed

lemma set_key_box:
  "set (concat (map (\<lambda>kx. concat (map (\<lambda>ky. map (\<lambda>kz. (kx, ky, kz)) [c..d]) [a..b])) [e..f]))
   = {(kx, ky, kz). e \<le> kx \<and> kx \<le> f \<and> a \<le> ky \<and> ky \<le> b \<and> c \<le> kz \<and> kz \<le> d}"
  for a b c d e f :: int
  by force

lemma axis_cover:
  fixes x radius mn mx cs :: real and k :: int
  assumes "0 < cs" and "mn \<le> mx" and "\<bar>mn - x\<bar> \<le> radius" and "\<bar>mx - x\<bar> \<le> radius"
    and "0 \<le> k" and "k < max 1 \<lceil>(mx - mn) / cs\<rceil>"
  shows "max 0 \<lfloor>(x - radius - mn) / cs\<rfloor> \<le> k"
    and "k \<le> min (max 1 \<lceil>(mx - mn) / cs\<rceil> - 1) \<lceil>(x + radius - mn) / cs\<rceil>"
proof -
  have "(x - radius - mn) / cs \<le> 0"
    using assms(1,3) by (simp add: divide_le_0_iff)
  then have "\<lfloor>(x - radius - mn) / cs\<rfloor> \<le> 0" by simp
  then show "max 0 \<lfloor>(x - radius - mn) / cs\<rfloor> \<le> k" using assms(5) by simp
  have "(mx - mn) / cs \<le> (x + radius - mn) / cs"
    using assms(1,4) by (simp add: divide_right_mono)
  then have c: "\<lceil>(mx - mn) / cs\<rceil> \<le> \<lceil>(x + radius - mn) / cs\<rceil>"
    by (rule ceiling_mono)
  have "0 \<le> (mx - mn) / cs" using assms(1,2) by simp
  then have "0 \<le> \<lceil>(mx - mn) / cs\<rceil>" by (simp add: ceiling_le_iff le_ceiling_iff)
  then show "k \<le> min (max 1 \<lceil>(mx - mn) / cs\<rceil> - 1) \<lceil>(x + radius - mn) / cs\<rceil>"
    using c assms(6) by linarith
qed

lemma query_keys_member:
  assumes "gridMin g = (mnX, mnY, mnZ)" and "gridDims g = (dX, dY, dZ)"
  shows "(kx, ky, kz) \<in> set (query_keys g (x, y, z) radius)
     \<longleftrightarrow> max 0 \<lfloor>(x - radius - mnX) / cellSize g\<rfloor> \<le> kx
         \<and> kx \<le> min (dX - 1) \<lceil>(x + radius - mnX) / cellSize g\<rceil>
         \<and> max 0 \<lfloor>(y - radius - mnY) / cellSize g\<rfloor> \<le> ky
         \<and> ky \<le> min (dY - 1) \<lceil>(y + radius - mnY) / cellSize g\<rceil>
         \<and> max 0 \<lfloor>(z - radius - mnZ) / cellSize g\<rfloor> \<le> kz
         \<and> kz \<le> min (dZ - 1) \<lceil>(z + radius - mnZ) / cellSize g\<rceil>"
  unfolding query_keys_def Let_def assms prod.case set_key_box by simp

lemma query_keys_cover:
  assumes cs: "0 < cellSize g0"
    and cover: "\<forall>p. in_box (gridMin (SpatialGrid_build g0 d)) (gridMax (SpatialGrid_build g0 d)) p
                 \<longrightarrow> dist3 p center \<le> radius"
    and k: "key_in_dims (gridDims (SpatialGrid_build g0 d)) k"
  shows "k \<in> set (query_keys (SpatialGrid_build g0 d) center radius)"
proof -
  let ?g = "SpatialGrid_build g0 d"
  obtain mnX mnY mnZ where mn: "gridMin ?g = (mnX, mnY, mnZ)" by (metis prod_cases3)
  obtain mxX mxY mxZ where mx: "gridMax ?g = (mxX, mxY, mxZ)" by (metis prod_cases3)
  obtain x y z where c: "center = (x, y, z)" by (metis prod_cases3)
  obtain kx ky kz where kk: "k = (kx, ky, kz)" by (metis prod_cases3)
  define dX where "dX = max 1 \<lceil>(mxX - mnX) / cellSize g0\<rceil>"
  define dY where "dY = max 1 \<lceil>(mxY - mnY) / cellSize g0\<rceil>"
  define dZ where "dZ = max 1 \<lceil>(mxZ - mnZ) / cellSize g0\<rceil>"
  have dims: "gridDims ?g = (dX, dY, dZ)"
    unfolding dX_def dY_def dZ_def by (rule gridDims_build [OF mn mx])
  have le: "mnX \<le> mxX" "mnY \<le> mxY" "mnZ \<le> mxZ"
    using grid_box_build(1) [OF cs, of d] by (simp_all add: mn mx vec_le_def)
  have "in_box (gridMin ?g) (gridMax ?g) (mnX, mnY, mnZ)"
    using le by (simp add: mn mx in_box_def vec_le_def)
  then have "dist3 (mnX, mnY, mnZ) (x, y, z) \<le> radius" using cover c by blast
  note lo = dist3_le_D(2-4) [OF this]
  have "in_box (gridMin ?g) (gridMax ?g) (mxX, mxY, mxZ)"
    using le by (simp add: mn mx in_box_def vec_le_def)
  then have "dist3 (mxX, mxY, mxZ) (x, y, z) \<le> radius" using cover c by blast
  note hi = dist3_le_D(2-4) [OF this]
  have kr: "0 \<le> kx" "kx < dX" "0 \<le> ky" "ky < dY" "0 \<le> kz" "kz < dZ"
    using k by (simp_all add: key_in_dims_def dims kk)
  note X = axis_cover [OF cs le(1) lo(1) hi(1) kr(1) kr(2) [unfolded dX_def]]
  note Y = axis_cover [OF cs le(2) lo(2) hi(2) kr(3) kr(4) [unfolded dY_def]]
  note Z = axis_cover [OF cs le(3) lo(3) hi(3) kr(5) kr(6) [unfolded dZ_def]]
  have "(kx, ky, kz) \<in> set (query_keys ?g (x, y, z) radius)"
    unfolding query_keys_member [OF mn dims] cellSize_build
    using X Y Z unfolding dX_def dY_def dZ_def by (intro conjI)
  then show ?thesis by (simp add: kk c)
qed

lemma visitCell_total_included:
  assumes "\<And>c. map_of (cells g) key = Some c \<Longrightarrow> cell_in_sphere center radiusSq c"
  shows "totalCount (visitCell g center radiusSq key r) = totalCount r + count_at (cells g) key"
proof (cases "map_of (cells g) key")
  case None
  then show ?thesis by (simp add: visitCell_def count_at_def)
next
  case (Some c)
  obtain x y z where c: "center = (x, y, z)" by (metis prod_cases3)
  from assms [OF Some] obtain a b c' where
    "centroid c = Some (Num a, Num b, Num c')"
    "(a - x) * (a - x) + (b - y) * (b - y) + (c' - z) * (c' - z) \<le> radiusSq"
    by (auto simp: cell_in_sphere_def c)
  then show ?thesis
    by (simp add: visitCell_def count_at_def Some c Let_def js_sub_def js_mul_def js_plus_def js_le_def)
qed

lemma fold_visitCell_total_included:
  assumes "\<And>k c. (k, c) \<in> set (cells g) \<Longrightarrow> cell_in_sphere center radiusSq c"
  shows "totalCount (fold (visitCell g center radiusSq) ks r)
         = totalCount r + sum_list (map (count_at (cells g)) ks)"
proof (induction ks arbitrary: r)
  case Nil
  then show ?case by simp
next
  case (Cons k ks)
  have "totalCount (visitCell g center radiusSq k r) = totalCount r + count_at (cells g) k"
    by (rule visitCell_total_included) (use assms map_of_SomeD in fast)
  then show ?case by (simp add: Cons.IH)
qed

lemma sum_count_at_eq_total:
  assumes "distinct ks" and "distinct (map fst al)" and "fst ` set al \<subseteq> set ks"
  shows "sum_list (map (count_at al) ks) = total_count al"
proof -
  let ?K = "fst ` set al"
  have inj: "inj_on fst (set al)" and dal: "distinct al"
    using assms(2) by (simp_all add: distinct_map)
  have zero: "count_at al k = 0" if "k \<notin> ?K" for k
  proof -
    have "map_of al k = None" using that by (simp add: map_of_eq_None_iff)
    then show ?thesis by (simp add: count_at_def)
  qed
  have "sum_list (map (count_at al) ks) = sum (count_at al) (set ks)"
    using assms(1) by (rule sum_list_distinct_conv_sum_set)
  also have "\<dots> = sum (count_at al) ?K"
    by (rule sum.mono_neutral_right) (use assms(3) zero in auto)
  also have "\<dots> = sum (\<lambda>kc. count_at al (fst kc)) (set al)"
    using inj by (simp add: sum.reindex comp_def)
  also have "\<dots> = sum (\<lambda>kc. count_c (snd kc)) (set al)"
    by (rule sum.cong) (use assms(2) in \<open>auto simp: count_at_def\<close>)
  also have "\<dots> = total_count al"
    unfolding total_count_def using dal by (simp add: sum_list_distinct_conv_sum_set)
  finally show ?thesis .
qed

text \<open>
  Claim C6: when the query sphere covers the whole grid (every point of the grid's bounding
  box is within \<open>radius\<close> of \<open>center\<close>), \<^verbatim>\<open>querySphere\<close> on a grid built from new returns
  a \<^verbatim>\<open>totalCount\<close> equal to the sum of the counts of the populated cells, which is the
  number of points.
\<close>

theorem querySphere_covering_total:
  assumes "valid_data d" and "0 < cs"
    and covers: "sphere_covers_grid (SpatialGrid_build (SpatialGrid_new cs) d) center radius"
  shows "totalCount (querySphere (SpatialGrid_build (SpatialGrid_new cs) d) center radius)
         = sum_list (map (\<lambda>kc. count_c (snd kc)) (populated (SpatialGrid_build (SpatialGrid_new cs) d)))
    \<and> totalCount (querySphere (SpatialGrid_build (SpatialGrid_new cs) d) center radius) = count d"
proof -
  let ?g = "SpatialGrid_build (SpatialGrid_new cs) d"
  let ?init = "\<lparr>totalCount = 0, speciesHistogram_r = replicate 8 0,
                  timeHistogram_r = replicate 10 0, cellsQueried = 0,
                  minTime = Some (Num 1), maxTime = Some (Num 0),
                  dominantSpecies_r = 0, timeSpan = (Num 0, Num 0)\<rparr>"
  have cs0: "0 < cellSize (SpatialGrid_new cs)" using assms(2) by (simp add: SpatialGrid_new_def)
  have cover: "\<forall>p. in_box (gridMin ?g) (gridMax ?g) p \<longrightarrow> dist3 p center \<le> radius"
    using covers by (simp add: sphere_covers_grid_def)
  obtain x y z where c: "center = (x, y, z)" by (metis prod_cases3)
  have inc: "cell_in_sphere center (radius * radius) c'" if "(k, c') \<in> set (cells ?g)" for k c'
  proof -
    have "centroid_in (gridMin ?g) (gridMax ?g) c'"
      using centroid_in_grid_build [OF assms(2) that] by simp
    then obtain a b e where abe: "centroid c' = Some (Num a, Num b, Num e)"
      "in_box (gridMin ?g) (gridMax ?g) (a, b, e)"
      by (auto simp: centroid_in_def)
    then have "dist3 (a, b, e) (x, y, z) \<le> radius" using cover c by blast
    from dist3_le_D(1) [OF this] abe(1) show ?thesis
      by (auto simp: cell_in_sphere_def c)
  qed
  have keys: "fst ` set (cells ?g) \<subseteq> set (query_keys ?g center radius)"
  proof
    fix k assume "k \<in> fst ` set (cells ?g)"
    then obtain i where "i < count d" "k = pointKey ?g (point_at (positions d) i)"
      by (auto simp: keys_build_new)
    then have "key_in_dims (gridDims ?g) k"
      using pointKey_in_dims [OF dims_positive_build] by simp
    with cs0 cover show "k \<in> set (query_keys ?g center radius)"
      by (rule query_keys_cover)
  qed
  have "totalCount (querySphere ?g center radius)
        = totalCount (fold (visitCell ?g center (radius * radius)) (query_keys ?g center radius) ?init)"
    by (simp add: querySphere_def Let_def)
  also have "\<dots> = sum_list (map (count_at (cells ?g)) (query_keys ?g center radius))"
    using fold_visitCell_total_included [of ?g center "radius * radius" "query_keys ?g center radius" ?init] inc
    by simp
  also have "\<dots> = total_count (cells ?g)"
    by (rule sum_count_at_eq_total) (simp_all add: distinct_query_keys distinct_keys_build_new keys)
  finally have t: "totalCount (querySphere ?g center radius) = total_count (cells ?g)" .
  have "total_count (cells ?g) = count d"
    by (simp add: total_count_cells_build) (simp add: SpatialGrid_new_def total_count_def)
  then show ?thesis
    using t by (simp add: populated_eq_cells_build_new total_count_def)
qed

lemma gridMin_psA: "gridMin (SpatialGrid_build (SpatialGrid_new (1 / 2)) psA) = (- 1 / 4, - 1 / 4, - 1 / 4)"
  by code_simp

lemma gridMax_psA: "gridMax (SpatialGrid_build (SpatialGrid_new (1 / 2)) psA) = (21 / 4, 1 / 4, 1 / 4)"
  by code_simp

lemma square_le_of_abs_le:
  fixes x b :: real
  assumes "\<bar>x\<bar> \<le> b"
  shows "x * x \<le> b * b"
proof -
  have "\<bar>x\<bar> * \<bar>x\<bar> \<le> b * b"
    by (rule mult_mono) (use assms in simp_all)
  then show ?thesis by simp
qed

lemma sphere_covers_psA:
  "sphere_covers_grid (SpatialGrid_build (SpatialGrid_new (1 / 2)) psA) (0, 0, 0) 10"
  unfolding sphere_covers_grid_def
proof (intro allI impI)
  fix p :: vec3
  assume b: "in_box (gridMin (SpatialGrid_build (SpatialGrid_new (1 / 2)) psA))
               (gridMax (SpatialGrid_build (SpatialGrid_new (1 / 2)) psA)) p"
  obtain x y z where p: "p = (x, y, z)" by (metis prod_cases3)
  have a: "\<bar>x\<bar> \<le> 6" "\<bar>y\<bar> \<le> 1" "\<bar>z\<bar> \<le> 1"
    using b by (simp_all add: gridMin_psA gridMax_psA in_box_def vec_le_def p abs_le_iff)
  have "x * x \<le> 6 * 6" "y * y \<le> 1 * 1" "z * z \<le> 1 * 1"
    by (simp_all only: square_le_of_abs_le [OF a(1)] square_le_of_abs_le [OF a(2)]
        square_le_of_abs_le [OF a(3)])
  then have "x * x + y * y + z * z \<le> 10\<^sup>2" by simp
  then have "sqrt (x * x + y * y + z * z) \<le> 10"
    by (intro real_le_lsqrt) simp_all
  then show "dist3 p (0, 0, 0) \<le> 10" by (simp add: dist3_def p)
qed

theorem querySphere_covering_total_witness:
  "valid_data psA \<and> (0::real) < 1 / 2
   \<and> sphere_covers_grid (SpatialGrid_build (SpatialGrid_new (1 / 2)) psA) (0, 0, 0) 10
   \<and> totalCount (querySphere (SpatialGrid_build (SpatialGrid_new (1 / 2)) psA) (0, 0, 0) 10)
       = sum_list (map (\<lambda>kc. count_c (snd kc)) (populated (SpatialGrid_build (SpatialGrid_new (1 / 2)) psA)))
   \<and> totalCount (querySphere (SpatialGrid_build (SpatialGrid_new (1 / 2)) psA) (0, 0, 0) 10) = count psA"
  using querySphere_covering_total [OF valid_data_psA _ sphere_covers_psA]
    valid_data_psA sphere_covers_psA
  by simp

subsection \<open>The empty point set\<close>

text \<open>
  Scenario B of the specification: an empty point set gives a grid of at least one cell,
  none of them populated, on which every query counts nothing.
\<close>

lemma scenario_B:
  assumes "count d = 0"
  shows "populatedCells (SpatialGrid_build (SpatialGrid_new cs) d) = 0"
    and "1 \<le> totalCells (SpatialGrid_build (SpatialGrid_new cs) d)"
    and "totalCount (querySphere (SpatialGrid_build (SpatialGrid_new cs) d) center radius) = 0"
proof -
  let ?g = "SpatialGrid_build (SpatialGrid_new cs) d"
  have ins: "cells (inserted (SpatialGrid_new cs) d) = []"
    using assms by (simp add: inserted_def insertPoints_def SpatialGrid_new_def)
  then have c: "cells ?g = []" by (simp add: cells_build)
  show "populatedCells ?g = 0"
    using ins by (simp add: build_eq finalizeCells_def)
  show "1 \<le> totalCells ?g"
  proof -
    define a where "a = max 1 \<lceil>1 / cs\<rceil>"
    have "1 * 1 * 1 \<le> a * a * a"
      by (intro mult_mono) (simp_all add: a_def)
    then show ?thesis
      using assms
      by (simp add: build_eq finalizeCells_def inserted_def insertPoints_def computeGridDimensions_def
          computeBounds_def SpatialGrid_new_def Let_def a_def)
  qed
  have "fold (visitCell ?g center rsq) ks r = r" for rsq ks r
    by (induction ks) (simp_all add: visitCell_def c)
  then show "totalCount (querySphere ?g center radius) = 0"
    by (simp add: querySphere_def Let_def)
qed

subsection \<open>Building twice\<close>

text \<open>
  A second build keeps every cell of the first, and the counts of the cells then add up
  to the points of both builds.
\<close>

lemma rebuild_keeps_cells:
  "fst ` set (cells (SpatialGrid_build g dA))
   \<subseteq> fst ` set (cells (SpatialGrid_build (SpatialGrid_build g dA) dB))"
proof -
  have k: "fst ` set (cells (SpatialGrid_build g0 d)) = fst ` set (cells (inserted g0 d))" for g0 d
    using build_frame(5) [of g0 d] by (metis set_map)
  have "fst ` set (cells g0) \<subseteq> fst ` set (cells (inserted g0 d))" for g0 d
    by (auto simp: inserted_def insertPoints_def keys_fold_insertPoint)
  then show ?thesis unfolding k [of "SpatialGrid_build g dA" dB] .
qed

lemma rebuild_counts_old_cells:
  "total_count (cells (SpatialGrid_build (SpatialGrid_build (SpatialGrid_new cs) dA) dB)) = count dA + count dB"
  by (simp add: total_count_cells_build) (simp add: SpatialGrid_new_def total_count_def)

text \<open>
  The observables of a grid built on \<open>psA\<close> and then on \<open>psB\<close>, and of a new grid built on
  \<open>psB\<close>.
\<close>

lemma rebuilt_populatedCells:
  "st_populatedCells (getStats (SpatialGrid_build (SpatialGrid_build (SpatialGrid_new (1 / 2)) psA) psB)) = 2"
  by code_simp

lemma fresh_populatedCells:
  "st_populatedCells (getStats (SpatialGrid_build (SpatialGrid_new (1 / 2)) psB)) = 1"
  by code_simp

lemma rebuilt_totalCount:
  "totalCount (querySphere (SpatialGrid_build (SpatialGrid_build (SpatialGrid_new (1 / 2)) psA) psB) (0, 0, 0) 10) = 0"
  by code_simp

lemma fresh_totalCount:
  "totalCount (querySphere (SpatialGrid_build (SpatialGrid_new (1 / 2)) psB) (0, 0, 0) 10) = 1"
  by code_simp

text \<open>
  Claim C2 says that building on A and then on B leaves nothing of A observable. For the
  spatial grid it fails: \<^verbatim>\<open>build\<close> never empties the map of cells, so the cells of A are
  counted again, and every cell of A has lost its running sums, so its centroid becomes NaN
  and no query includes it. With A two points five units apart and B the first of them,
  the rebuilt grid reports two populated cells and finds no point around the origin; a new
  grid built on B reports one populated cell and finds the point.
\<close>

theorem double_build_keeps_first_build:
  "st_populatedCells (getStats (SpatialGrid_build (SpatialGrid_build (SpatialGrid_new (1 / 2)) psA) psB)) = 2
   \<and> st_populatedCells (getStats (SpatialGrid_build (SpatialGrid_new (1 / 2)) psB)) = 1
   \<and> totalCount (querySphere (SpatialGrid_build (SpatialGrid_build (SpatialGrid_new (1 / 2)) psA) psB) (0, 0, 0) 10) = 0
   \<and> totalCount (querySphere (SpatialGrid_build (SpatialGrid_new (1 / 2)) psB) (0, 0, 0) 10) = 1"
  using rebuilt_populatedCells fresh_populatedCells rebuilt_totalCount fresh_totalCount by simp

section \<open>Proofs: the density aggregator\<close>

subsection \<open>The density weights do not reach the output\<close>

lemma map_of_forget_sumD: "map_of (forget_sumD al) k = map_option drop_sumD (map_of al k)"
  by (induction al) (simp_all add: forget_sumD_def)

lemma forget_sumD_update:
  "forget_sumD (AList.update k v al) = AList.update k (drop_sumD v) (forget_sumD al)"
  by (induction al) (auto simp: forget_sumD_def)

lemma drop_sumD_fields:
  assumes "drop_sumD c = drop_sumD c'"
  shows "sumX_a c = sumX_a c'" "sumY_a c = sumY_a c'" "sumZ_a c = sumZ_a c'" "sumT c = sumT c'"
    "count_a c = count_a c'" "speciesCounts c = speciesCounts c'"
proof -
  have f: "f (drop_sumD c) = f (drop_sumD c')" for f :: "agg_cell \<Rightarrow> 'b"
    using assms by simp
  show "sumX_a c = sumX_a c'" using f [of sumX_a] by (simp add: drop_sumD_def)
  show "sumY_a c = sumY_a c'" using f [of sumY_a] by (simp add: drop_sumD_def)
  show "sumZ_a c = sumZ_a c'" using f [of sumZ_a] by (simp add: drop_sumD_def)
  show "sumT c = sumT c'" using f [of sumT] by (simp add: drop_sumD_def)
  show "count_a c = count_a c'" using f [of count_a] by (simp add: drop_sumD_def)
  show "speciesCounts c = speciesCounts c'" using f [of speciesCounts] by (simp add: drop_sumD_def)
qed

lemma aggKey_same: "same_but_densities d d' \<Longrightarrow> aggKey d' cellSz i = aggKey d cellSz i"
  by (simp add: aggKey_def same_but_densities_def)

lemma drop_sumD_agg_add:
  assumes "same_but_densities d d'" and "drop_sumD c = drop_sumD c'"
  shows "drop_sumD (agg_add d i c) = drop_sumD (agg_add d' i c')"
proof -
  obtain x y z where p: "point_at (positions d) i = (x, y, z)" by (metis prod_cases3)
  have p': "point_at (positions d') i = (x, y, z)"
    using assms(1) p by (simp add: same_but_densities_def)
  have "c' = c\<lparr>sumD := sumD c'\<rparr>"
    using drop_sumD_fields [OF assms(2)] by simp
  then obtain e where c': "c' = c\<lparr>sumD := e\<rparr>" by blast
  show ?thesis
    using assms(1) by (simp add: agg_add_def p p' c' drop_sumD_def same_but_densities_def)
qed

lemma forget_sumD_agg_step:
  assumes "same_but_densities d d'" and "forget_sumD al = forget_sumD al'"
  shows "forget_sumD (agg_step d cellSz i al) = forget_sumD (agg_step d' cellSz i al')"
proof -
  let ?k = "aggKey d cellSz i"
  let ?c = "case map_of al ?k of None \<Rightarrow> new_agg_cell | Some c \<Rightarrow> c"
  let ?c' = "case map_of al' ?k of None \<Rightarrow> new_agg_cell | Some c \<Rightarrow> c"
  have "map_option drop_sumD (map_of al ?k) = map_option drop_sumD (map_of al' ?k)"
    using assms(2) map_of_forget_sumD [of al ?k] map_of_forget_sumD [of al' ?k] by simp
  then have "drop_sumD ?c = drop_sumD ?c'"
    by (cases "map_of al ?k"; cases "map_of al' ?k") simp_all
  then have "drop_sumD (agg_add d i ?c) = drop_sumD (agg_add d' i ?c')"
    using assms(1) by (intro drop_sumD_agg_add)
  then show ?thesis
    using assms(2)
    by (simp add: agg_step_def Let_def aggKey_same [OF assms(1)] forget_sumD_update)
qed

lemma forget_sumD_fold:
  assumes "same_but_densities d d'" and "forget_sumD al = forget_sumD al'"
  shows "forget_sumD (fold (agg_step d cellSz) is al) = forget_sumD (fold (agg_step d' cellSz) is al')"
  using assms(2)
proof (induction "is" arbitrary: al al')
  case Nil
  then show ?case by simp
next
  case (Cons i "is")
  have "forget_sumD (agg_step d cellSz i al) = forget_sumD (agg_step d' cellSz i al')"
    using assms(1) Cons.prems by (rule forget_sumD_agg_step)
  then show ?case by (simp add: Cons.IH)
qed

lemma forget_sumD_agg_cells:
  assumes "same_but_densities d d'"
  shows "forget_sumD (agg_cells d' cellSz) = forget_sumD (agg_cells d cellSz)"
proof -
  have "count d' = count d" using assms by (simp add: same_but_densities_def)
  then show ?thesis
    using forget_sumD_fold [OF assms, of "[]" "[]" cellSz "[0..<count d]"]
    by (simp add: agg_cells_def)
qed

lemma write_cells_cong:
  assumes "map drop_sumD cs = map drop_sumD cs'"
  shows "write_cells i cs out = write_cells i cs' out"
  using assms
proof (induction cs arbitrary: cs' i out)
  case Nil
  then show ?case by simp
next
  case (Cons c cs)
  then obtain c' cs'' where cs': "cs' = c' # cs''" "drop_sumD c = drop_sumD c'"
    "map drop_sumD cs = map drop_sumD cs''"
    by (cases cs') auto
  note f = drop_sumD_fields [OF cs'(2)]
  show ?case
    unfolding cs'(1) by (simp add: f Cons.IH [OF cs'(3)])
qed

lemma snd_forget_sumD: "map snd (forget_sumD al) = map drop_sumD (map snd al)"
  by (simp add: forget_sumD_def)

lemma length_forget_sumD: "length (forget_sumD al) = length al"
  by (simp add: forget_sumD_def)

lemma aggregateLevel_same:
  assumes "same_but_densities d d'"
  shows "aggregateLevel d' cellSz lod = aggregateLevel d cellSz lod"
proof -
  have f: "forget_sumD (agg_cells d' cellSz) = forget_sumD (agg_cells d cellSz)"
    using assms by (rule forget_sumD_agg_cells)
  have m: "map drop_sumD (map snd (agg_cells d' cellSz)) = map drop_sumD (map snd (agg_cells d cellSz))"
    using arg_cong [OF f, of "map snd"] by (simp only: snd_forget_sumD)
  have l: "length (agg_cells d' cellSz) = length (agg_cells d cellSz)"
    using arg_cong [OF f, of length] by (simp only: length_forget_sumD)
  show ?thesis
    unfolding aggregateLevel_def Let_def l by (rule write_cells_cong [OF m])
qed

subsection \<open>The aggregated density\<close>

lemma count_a_agg_add [simp]: "count_a (agg_add d i c) = count_a c + 1"
  by (cases "point_at (positions d) i") (simp add: agg_add_def)

lemma acount_agg_step:
  "acount (agg_step d cellSz i al) k = acount al k + (if aggKey d cellSz i = k then 1 else 0)"
  by (auto simp: agg_step_def Let_def acount_def update_conv' new_agg_cell_def split: option.split)

lemma acount_fold_agg_step:
  "acount (fold (agg_step d cellSz) is al) k
   = acount al k + length (filter (\<lambda>i. aggKey d cellSz i = k) is)"
  by (induction "is" arbitrary: al) (simp_all add: acount_agg_step)

lemma acount_agg_cells:
  "acount (agg_cells d cellSz) k = card {i. i < count d \<and> aggKey d cellSz i = k}"
  by (simp add: agg_cells_def acount_fold_agg_step length_filter_upt_card) (simp add: acount_def)

lemma distinct_agg_step: "distinct (map fst al) \<Longrightarrow> distinct (map fst (agg_step d cellSz i al))"
  by (simp add: agg_step_def Let_def distinct_update)

lemma distinct_agg_cells: "distinct (map fst (agg_cells d cellSz))"
proof -
  have "distinct (map fst al) \<Longrightarrow> distinct (map fst (fold (agg_step d cellSz) is al))" for "is" al
    by (induction "is" arbitrary: al) (simp_all add: distinct_agg_step)
  then show ?thesis by (simp add: agg_cells_def)
qed

lemma keys_agg_step: "fst ` set (agg_step d cellSz i al) = insert (aggKey d cellSz i) (fst ` set al)"
  using dom_update [of "aggKey d cellSz i" _ al]
  by (simp add: agg_step_def Let_def dom_map_of_conv_image_fst)

lemma keys_agg_cells: "fst ` set (agg_cells d cellSz) = (\<lambda>i. aggKey d cellSz i) ` {0..<count d}"
proof -
  have "fst ` set (fold (agg_step d cellSz) is al) = (\<lambda>i. aggKey d cellSz i) ` set is \<union> fst ` set al"
    for "is" al
    by (induction "is" arbitrary: al) (auto simp: keys_agg_step)
  then show ?thesis by (simp add: agg_cells_def)
qed

lemma count_a_nth:
  assumes "j < length (agg_cells d cellSz)"
  shows "count_a (snd (agg_cells d cellSz ! j)) = merged_count d cellSz j"
    and "1 \<le> merged_count d cellSz j"
proof -
  let ?al = "agg_cells d cellSz"
  have mem: "(fst (?al ! j), snd (?al ! j)) \<in> set ?al" using assms by simp
  then have "map_of ?al (fst (?al ! j)) = Some (snd (?al ! j))"
    using distinct_agg_cells by (intro map_of_is_SomeI)
  then have "count_a (snd (?al ! j)) = acount ?al (fst (?al ! j))"
    by (simp add: acount_def)
  then show c: "count_a (snd (?al ! j)) = merged_count d cellSz j"
    by (simp add: acount_agg_cells merged_count_def)
  have "fst (?al ! j) \<in> fst ` set ?al" using mem by force
  then obtain i where i: "i < count d" "aggKey d cellSz i = fst (?al ! j)"
    by (auto simp: keys_agg_cells)
  have "finite {i. i < count d \<and> aggKey d cellSz i = fst (?al ! j)}" by simp
  moreover have "i \<in> {i. i < count d \<and> aggKey d cellSz i = fst (?al ! j)}" using i by simp
  ultimately have "0 < card {i. i < count d \<and> aggKey d cellSz i = fst (?al ! j)}"
    by (metis card_gt_0_iff empty_iff)
  then show "1 \<le> merged_count d cellSz j" by (simp add: merged_count_def)
qed

lemma write_cells_densities:
  assumes "length (densities out) = n" and "i + length cs \<le> n"
  shows "count (write_cells i cs out) = count out
    \<and> length (densities (write_cells i cs out)) = n
    \<and> (\<forall>j < n. densities (write_cells i cs out) ! j
          = (if i \<le> j \<and> j < i + length cs then count_density (count_a (cs ! (j - i)))
             else densities out ! j))"
  using assms
proof (induction cs arbitrary: i out)
  case Nil
  then show ?case by simp
next
  case (Cons c cs)
  let ?out = "out\<lparr>positions := (positions out)
                [i * 3 := sumX_a c / real (count_a c),
                 i * 3 + 1 := sumY_a c / real (count_a c),
                 i * 3 + 2 := sumZ_a c / real (count_a c)],
            times_arr := (times_arr out)[i := sumT c / real (count_a c)],
            species := (species out)[i := real (snd (fold (dominant_step (speciesCounts c)) [0..<8] (0, 0)))],
            densities := (densities out)[i := count_density (count_a c)]\<rparr>"
  have w: "write_cells i (c # cs) out = write_cells (i + 1) cs ?out" by simp
  have IH: "count (write_cells (i + 1) cs ?out) = count ?out
    \<and> length (densities (write_cells (i + 1) cs ?out)) = n
    \<and> (\<forall>j < n. densities (write_cells (i + 1) cs ?out) ! j
          = (if i + 1 \<le> j \<and> j < i + 1 + length cs then count_density (count_a (cs ! (j - (i + 1))))
             else densities ?out ! j))"
    by (rule Cons.IH) (use Cons.prems in simp_all)
  have "densities (write_cells (i + 1) cs ?out) ! j
        = (if i \<le> j \<and> j < i + length (c # cs) then count_density (count_a ((c # cs) ! (j - i)))
           else densities out ! j)" if "j < n" for j
  proof (cases "j = i")
    case True
    then show ?thesis using IH that Cons.prems by simp
  next
    case False
    then show ?thesis using IH that Cons.prems by (auto simp: nth_Cons')
  qed
  then show ?case
    unfolding w using IH by simp
qed

lemma count_density_range: "0 \<le> count_density k \<and> count_density k \<le> 1"
proof -
  have "0 \<le> log 10 (real (k + 1))" by (rule zero_le_log_cancel_iff [THEN iffD2]) simp_all
  then show ?thesis by (simp add: count_density_def)
qed

lemma aggregateLevel_density:
  "count (aggregateLevel d cellSz lod) = length (agg_cells d cellSz)"
  "j < count (aggregateLevel d cellSz lod)
   \<Longrightarrow> densities (aggregateLevel d cellSz lod) ! j = count_density (merged_count d cellSz j)"
proof -
  let ?al = "agg_cells d cellSz"
  let ?out = "\<lparr>positions = replicate (length ?al * 3) 0, times_arr = replicate (length ?al) 0,
            species = replicate (length ?al) 0, densities = replicate (length ?al) 0,
            count = length ?al, lodLevel = lod\<rparr>"
  have w: "count (write_cells 0 (map snd ?al) ?out) = count ?out
    \<and> length (densities (write_cells 0 (map snd ?al) ?out)) = length ?al
    \<and> (\<forall>j < length ?al. densities (write_cells 0 (map snd ?al) ?out) ! j
          = (if 0 \<le> j \<and> j < 0 + length (map snd ?al) then count_density (count_a (map snd ?al ! (j - 0)))
             else densities ?out ! j))"
    by (rule write_cells_densities) simp_all
  show c: "count (aggregateLevel d cellSz lod) = length ?al"
    using w by (simp add: aggregateLevel_def Let_def)
  show "densities (aggregateLevel d cellSz lod) ! j = count_density (merged_count d cellSz j)"
    if "j < count (aggregateLevel d cellSz lod)"
  proof -
    have j: "j < length ?al" using that c by simp
    then have "densities (aggregateLevel d cellSz lod) ! j = count_density (count_a (snd (?al ! j)))"
      using w by (simp add: aggregateLevel_def Let_def)
    then show ?thesis using count_a_nth(1) [OF j] by simp
  qed
qed

text \<open>A second run of the aggregator keeps nothing of the first.\<close>

lemma process_rebuild_replaces: "process (process da dA) dB = process da dB"
  by (simp add: process_def)

text \<open>
  Claim C9: two point sets that are identical except in their density weights give the
  same level-1 and level-2 point sets. Every aggregated density is
  \<open>min(1, log10(k + 1) / 3)\<close>, where \<open>k\<close>, at least 1, is the number of points merged into
  the key of that output point; it lies in [0,1].
\<close>

theorem aggregate_ignores_density_weights:
  assumes "valid_data d" and "valid_data d'" and "same_but_densities d d'"
  shows "medium (levels (process da d')) = medium (levels (process da d))
    \<and> coarse (levels (process da d')) = coarse (levels (process da d))
    \<and> medium (levels (process da d)) = Some (aggregateLevel d (medium_size (cellSizes da)) 1)
    \<and> coarse (levels (process da d)) = Some (aggregateLevel d (coarse_size (cellSizes da)) 2)
    \<and> (\<forall>j < count (aggregateLevel d cellSz lod).
          densities (aggregateLevel d cellSz lod) ! j
            = min 1 (log 10 (real (merged_count d cellSz j + 1)) / 3)
          \<and> 1 \<le> merged_count d cellSz j
          \<and> 0 \<le> densities (aggregateLevel d cellSz lod) ! j
          \<and> densities (aggregateLevel d cellSz lod) ! j \<le> 1)"
proof -
  have same: "aggregateLevel d' cellSz' lod' = aggregateLevel d cellSz' lod'" for cellSz' lod'
    using assms(3) by (rule aggregateLevel_same)
  have dens: "densities (aggregateLevel d cellSz lod) ! j
            = min 1 (log 10 (real (merged_count d cellSz j + 1)) / 3)
          \<and> 1 \<le> merged_count d cellSz j
          \<and> 0 \<le> densities (aggregateLevel d cellSz lod) ! j
          \<and> densities (aggregateLevel d cellSz lod) ! j \<le> 1"
    if "j < count (aggregateLevel d cellSz lod)" for j
  proof -
    have j: "j < length (agg_cells d cellSz)" using that by (simp add: aggregateLevel_density(1))
    show ?thesis
      using aggregateLevel_density(2) [OF that] count_a_nth(2) [OF j]
        count_density_range [of "merged_count d cellSz j"]
      by (simp add: count_density_def)
  qed
  show ?thesis
    using same dens by (simp add: process_def)
qed

lemma valid_data_ps3: "valid_data ps3" "valid_data ps3'" "same_but_densities ps3 ps3'"
  by (simp_all add: valid_data_def ps3_def ps3'_def valid_species_def valid_unit_def same_but_densities_def)

lemma length_agg_cells_ps3: "length (agg_cells ps3 (1 / 20)) = 3"
  by code_simp

theorem aggregate_ignores_density_weights_witness:
  "valid_data ps3 \<and> valid_data ps3' \<and> same_but_densities ps3 ps3' \<and> densities ps3 \<noteq> densities ps3'
   \<and> medium (levels (process (DensityAggregator_new None) ps3'))
       = medium (levels (process (DensityAggregator_new None) ps3))
   \<and> coarse (levels (process (DensityAggregator_new None) ps3'))
       = coarse (levels (process (DensityAggregator_new None) ps3))
   \<and> 0 < count (aggregateLevel ps3 (1 / 20) 1)
   \<and> densities (aggregateLevel ps3 (1 / 20) 1) ! 0
       = min 1 (log 10 (real (merged_count ps3 (1 / 20) 0 + 1)) / 3)
   \<and> 1 \<le> merged_count ps3 (1 / 20) 0
   \<and> 0 \<le> densities (aggregateLevel ps3 (1 / 20) 1) ! 0
   \<and> densities (aggregateLevel ps3 (1 / 20) 1) ! 0 \<le> 1"
proof -
  have n: "0 < count (aggregateLevel ps3 (1 / 20) 1)"
    by (simp add: aggregateLevel_density(1) length_agg_cells_ps3)
  have d: "densities ps3 \<noteq> densities ps3'"
    by (simp add: ps3_def ps3'_def)
  show ?thesis
    using aggregate_ignores_density_weights [OF valid_data_ps3, of "DensityAggregator_new None" "1 / 20" 1]
      valid_data_ps3 n d
    by simp
qed

end
